theory Spec2Isabelle
  imports Main "HOL-Library.Word"
begin

section \<open>The store: interval nodes, the tree handle, the iterator\<close>

text \<open>
  The C module works on \<^verbatim>\<open>struct interval_node\<close> objects that the caller owns and
  that are linked by the \<^verbatim>\<open>parent\<close>, \<^verbatim>\<open>left\<close> and \<^verbatim>\<open>right\<close> pointers of their
  embedded \<^verbatim>\<open>struct rb_node base\<close>. A pointer is an address or \<^verbatim>\<open>NULL\<close>
  (\<open>None\<close>); the store maps the addresses of the live nodes to their contents.
  \<^verbatim>\<open>base\<close> is the first member, so \<^verbatim>\<open>rb_entry\<close>, \<^verbatim>\<open>RB_NODE\<close> and
  \<^verbatim>\<open>INTERVAL_NODE\<close> are the identity on addresses. The colour of the balancing
  engine is never read here and is left out.

  The endpoint type \<^verbatim>\<open>interval_type_t\<close> is declared in a header that is not part of
  the sources at hand. The traversal and the augmentation code only compare endpoints
  and use the constant \<^verbatim>\<open>0\<close>, so the definitions are generic in the endpoint type
  \<open>'a :: {linorder, zero}\<close>. \<^verbatim>\<open>interval_tree_node_max\<close> returns that
  \<^verbatim>\<open>0\<close> for the \<^verbatim>\<open>max\<close> of an absent child, which is the least value of an
  unsigned type: the theorems about the queries and the \<^verbatim>\<open>max\<close> field are stated for
  the unsigned machine words \<open>'w word\<close>, of every width \<open>'w\<close>. The comparator,
  which subtracts and converts to \<^verbatim>\<open>int\<close>, is defined on these words.
  The fields \<^verbatim>\<open>size\<close> and \<^verbatim>\<open>height\<close> are C \<^verbatim>\<open>int\<close>s: words of 32 bits whose
  sums wrap around and that \<^verbatim>\<open>MAX\<close> compares as two's complement numbers.
\<close>

type_synonym addr = nat

record 'a interval_node =
  parent :: "addr option"
  left :: "addr option"
  right :: "addr option"
  low :: 'a
  high :: 'a
  max' :: 'a
  size' :: "32 word"
  height :: "32 word"

type_synonym 'a heap = "addr \<Rightarrow> 'a interval_node option"

record rb_tree =
  root :: "addr option"

record 'a interval_tree_it =
  low_it :: 'a
  high_it :: 'a
  n_it :: "addr option"

text \<open>
  Modelled from the spec: the macro \<^verbatim>\<open>MAX\<close> of \<^verbatim>\<open>core/math.h\<close>, which is not among
  the sources; the spec reads it as the maximum of two endpoints.
\<close>

definition max_of :: "'a::linorder \<Rightarrow> 'a \<Rightarrow> 'a" where
  "max_of a b = (if a > b then a else b)"

text \<open>The same macro at two \<^verbatim>\<open>int\<close>s: the comparison is the signed one.\<close>

definition max_int :: "32 word \<Rightarrow> 32 word \<Rightarrow> 32 word" where
  "max_int a b = (if sint a > sint b then a else b)"

section \<open>Augmentation\<close>

text \<open>
  Every function that dereferences a pointer returns \<open>None\<close> when the address is not
  in the store (the C program has no defined behaviour there). For the loops
  \<open>None\<close> also stands for a run that never leaves the loop.
\<close>

definition interval_tree_node_max :: "'a::{linorder,zero} heap \<Rightarrow> addr option \<Rightarrow> 'a option" where
  "interval_tree_node_max h n = (case n of None \<Rightarrow> Some 0 | Some a \<Rightarrow> map_option max' (h a))"

definition interval_tree_node_size :: "'a heap \<Rightarrow> addr option \<Rightarrow> 32 word option" where
  "interval_tree_node_size h n = (case n of None \<Rightarrow> Some 0 | Some a \<Rightarrow> map_option size' (h a))"

definition interval_tree_node_height :: "'a heap \<Rightarrow> addr option \<Rightarrow> 32 word option" where
  "interval_tree_node_height h n = (case n of None \<Rightarrow> Some 0 | Some a \<Rightarrow> map_option height (h a))"

definition interval_tree_fix_counts :: "'a::{linorder,zero} heap \<Rightarrow> addr option \<Rightarrow> 'a heap option" where
  "interval_tree_fix_counts h n =
     (case n of
        None \<Rightarrow> Some h
      | Some a \<Rightarrow>
          (case h a of
             None \<Rightarrow> None
           | Some nd \<Rightarrow>
               (case (interval_tree_node_size h (left nd), interval_tree_node_size h (right nd),
                      interval_tree_node_height h (left nd), interval_tree_node_height h (right nd),
                      interval_tree_node_max h (left nd), interval_tree_node_max h (right nd)) of
                  (Some sl, Some sr, Some hl, Some hr, Some ml, Some mr) \<Rightarrow>
                    Some (h(a \<mapsto> nd\<lparr>size' := 1 + sl + sr,
                                     height := 1 + max_int hl hr,
                                     max' := max_of (max_of (high nd) ml) mr\<rparr>))
                | _ \<Rightarrow> None)))"

partial_function (option) interval_tree_augment_propagate ::
  "'a::{linorder,zero} heap \<Rightarrow> addr option \<Rightarrow> 'a heap option" where
  "interval_tree_augment_propagate h n =
     (case n of
        None \<Rightarrow> Some h
      | Some a \<Rightarrow>
          (case interval_tree_fix_counts h (Some a) of
             None \<Rightarrow> None
           | Some h' \<Rightarrow>
               (case h' a of
                  None \<Rightarrow> None
                | Some nd \<Rightarrow> interval_tree_augment_propagate h' (parent nd))))"

definition interval_tree_augment_rotate ::
  "'a::{linorder,zero} heap \<Rightarrow> addr option \<Rightarrow> addr option \<Rightarrow> 'a heap option" where
  "interval_tree_augment_rotate h oldn newn =
     (case interval_tree_fix_counts h oldn of
        None \<Rightarrow> None
      | Some h1 \<Rightarrow>
          (case interval_tree_fix_counts h1 newn of
             None \<Rightarrow> None
           | Some h2 \<Rightarrow>
               (case newn of
                  None \<Rightarrow> None
                | Some b \<Rightarrow>
                    (case h2 b of
                       None \<Rightarrow> None
                     | Some nd \<Rightarrow> interval_tree_fix_counts h2 (parent nd)))))"

section \<open>The comparator\<close>

text \<open>
  \<^verbatim>\<open>(int)(lhs->low - rhs->low)\<close>: the subtraction is done in the endpoint type, a
  machine word of \<open>LENGTH('w)\<close> bits that wraps around, and the conversion keeps the
  low 32 bits read as two's complement (\<^verbatim>\<open>int\<close> has 32 bits on the targets of the
  program). The model is the C code for endpoint types at least as wide as \<^verbatim>\<open>int\<close>.
\<close>

definition to_int :: "'w::len word \<Rightarrow> int" where
  "to_int w = sint (ucast w :: 32 word)"

definition interval_tree_cmp :: "('w::len word) interval_node \<Rightarrow> 'w word interval_node \<Rightarrow> int" where
  "interval_tree_cmp lhs rhs =
     (let cmp = to_int (low lhs - low rhs)
      in if cmp = 0 then to_int (high lhs - high rhs) else cmp)"

section \<open>Queries\<close>

definition interval_tree_intersects :: "'a::linorder interval_node \<Rightarrow> 'a \<Rightarrow> 'a \<Rightarrow> bool" where
  "interval_tree_intersects n lo hi \<longleftrightarrow> hi \<ge> low n \<and> high n \<ge> lo"

text \<open>
  The loop of \<^verbatim>\<open>interval_tree_min_interval\<close>; its state is the cursor \<open>n\<close> and the
  candidate \<open>mn\<close> (the variable \<^verbatim>\<open>min\<close>).
\<close>

partial_function (option) min_interval_loop ::
  "'a::linorder heap \<Rightarrow> addr option \<Rightarrow> 'a \<Rightarrow> 'a \<Rightarrow> addr option \<Rightarrow> addr option option" where
  "min_interval_loop h n lo hi mn =
     (case n of
        None \<Rightarrow> Some mn
      | Some a \<Rightarrow>
          (case h a of
             None \<Rightarrow> None
           | Some nd \<Rightarrow>
               (case left nd of
                  None \<Rightarrow>
                    (if interval_tree_intersects nd lo hi then Some (Some a)
                     else min_interval_loop h (right nd) lo hi mn)
                | Some la \<Rightarrow>
                    (case h la of
                       None \<Rightarrow> None
                     | Some lnd \<Rightarrow>
                         if max' lnd < lo then
                           (if interval_tree_intersects nd lo hi then Some (Some a)
                            else min_interval_loop h (right nd) lo hi mn)
                         else
                           min_interval_loop h (left nd) lo hi
                             (if interval_tree_intersects nd lo hi then Some a else mn)))))"

definition interval_tree_min_interval ::
  "'a::linorder heap \<Rightarrow> addr option \<Rightarrow> 'a \<Rightarrow> 'a \<Rightarrow> addr option option" where
  "interval_tree_min_interval h n lo hi = min_interval_loop h n lo hi None"

text \<open>
  The inner loop of \<^verbatim>\<open>interval_tree_next_interval\<close>: climb while the node left
  behind, \<open>c\<close>, is the right child of the cursor \<open>n\<close>.
\<close>

partial_function (option) climb :: "'a heap \<Rightarrow> addr \<Rightarrow> addr option \<Rightarrow> addr option option" where
  "climb h c n =
     (case n of
        None \<Rightarrow> Some None
      | Some a \<Rightarrow>
          (case h a of
             None \<Rightarrow> None
           | Some nd \<Rightarrow> if right nd = Some c then climb h a (parent nd) else Some (Some a)))"

partial_function (option) interval_tree_next_interval ::
  "'a::linorder heap \<Rightarrow> addr option \<Rightarrow> 'a \<Rightarrow> 'a \<Rightarrow> addr option option" where
  "interval_tree_next_interval h n lo hi =
     (case n of
        None \<Rightarrow> Some None
      | Some a \<Rightarrow>
          (case h a of
             None \<Rightarrow> None
           | Some nd \<Rightarrow>
               (case (case right nd of
                        None \<Rightarrow> Some None
                      | Some r \<Rightarrow> interval_tree_min_interval h (Some r) lo hi) of
                  None \<Rightarrow> None
                | Some (Some m) \<Rightarrow> Some (Some m)
                | Some None \<Rightarrow>
                    (case climb h a (parent nd) of
                       None \<Rightarrow> None
                     | Some None \<Rightarrow> Some None
                     | Some (Some b) \<Rightarrow>
                         (case h b of
                            None \<Rightarrow> None
                          | Some bnd \<Rightarrow>
                              if interval_tree_intersects bnd lo hi then Some (Some b)
                              else interval_tree_next_interval h (Some b) lo hi)))))"

text \<open>
  \<^verbatim>\<open>interval_tree_clear\<close> runs in a state made of the store of the nodes and the
  tree handle; it writes the handle only.
\<close>

definition interval_tree_clear :: "'a heap \<times> rb_tree \<Rightarrow> 'a heap \<times> rb_tree" where
  "interval_tree_clear s = (fst s, (snd s)\<lparr>root := None\<rparr>)"

partial_function (option) find_loop ::
  "'a::linorder heap \<Rightarrow> addr option \<Rightarrow> 'a \<Rightarrow> 'a \<Rightarrow> addr option option" where
  "find_loop h n lo hi =
     (case n of
        None \<Rightarrow> Some None
      | Some a \<Rightarrow>
          (case h a of
             None \<Rightarrow> None
           | Some nd \<Rightarrow>
               if interval_tree_intersects nd lo hi then Some (Some a)
               else
                 (case left nd of
                    None \<Rightarrow> find_loop h (right nd) lo hi
                  | Some la \<Rightarrow>
                      (case h la of
                         None \<Rightarrow> None
                       | Some lnd \<Rightarrow>
                           if max' lnd < lo then find_loop h (right nd) lo hi
                           else find_loop h (left nd) lo hi))))"

definition interval_tree_find :: "'a::linorder heap \<Rightarrow> rb_tree \<Rightarrow> 'a \<Rightarrow> 'a \<Rightarrow> addr option option" where
  "interval_tree_find h t lo hi = find_loop h (root t) lo hi"

text \<open>
  The iterator entry points return the updated iterator together with the node they
  return in C.
\<close>

definition interval_tree_iter_first ::
  "'a::linorder heap \<Rightarrow> rb_tree \<Rightarrow> 'a \<Rightarrow> 'a \<Rightarrow> 'a interval_tree_it \<Rightarrow>
   ('a interval_tree_it \<times> addr option) option" where
  "interval_tree_iter_first h t lo hi it =
     (case interval_tree_min_interval h (root t) lo hi of
        None \<Rightarrow> None
      | Some r \<Rightarrow> Some (it\<lparr>low_it := lo, high_it := hi, n_it := r\<rparr>, r))"

definition interval_tree_iter_next ::
  "'a::linorder heap \<Rightarrow> 'a interval_tree_it \<Rightarrow> ('a interval_tree_it \<times> addr option) option" where
  "interval_tree_iter_next h it =
     (case interval_tree_next_interval h (n_it it) (low_it it) (high_it it) of
        None \<Rightarrow> None
      | Some r \<Rightarrow> Some (it\<lparr>n_it := r\<rparr>, r))"

section \<open>Iterating to the end\<close>

text \<open>
  The caller's loop: \<^verbatim>\<open>for (n = iter_first(..); n; n = iter_next(&it))\<close>, collecting
  the nodes it visits. \<open>drain\<close> is the loop from a given returned node on.
\<close>

partial_function (option) drain ::
  "'a::linorder heap \<Rightarrow> 'a interval_tree_it \<Rightarrow> addr option \<Rightarrow> addr list option" where
  "drain h it r =
     (case r of
        None \<Rightarrow> Some []
      | Some a \<Rightarrow>
          (case interval_tree_iter_next h it of
             None \<Rightarrow> None
           | Some (it', r') \<Rightarrow>
               Option.bind (drain h it' r') (\<lambda>xs. Some (a # xs))))"

definition iterate :: "'a::linorder heap \<Rightarrow> rb_tree \<Rightarrow> 'a \<Rightarrow> 'a \<Rightarrow> 'a interval_tree_it \<Rightarrow> addr list option" where
  "iterate h t lo hi it =
     (case interval_tree_iter_first h t lo hi it of
        None \<Rightarrow> None
      | Some (it', r) \<Rightarrow> drain h it' r)"

text \<open>\<open>k\<close> calls of \<^verbatim>\<open>interval_tree_iter_next\<close> in a row, with the nodes they return.\<close>

fun iter_next_calls ::
  "'a::linorder heap \<Rightarrow> nat \<Rightarrow> 'a interval_tree_it \<Rightarrow> ('a interval_tree_it \<times> addr option list) option" where
  "iter_next_calls h 0 it = Some (it, [])"
| "iter_next_calls h (Suc k) it =
     (case interval_tree_iter_next h it of
        None \<Rightarrow> None
      | Some (it', r) \<Rightarrow>
          (case iter_next_calls h k it' of
             None \<Rightarrow> None
           | Some (it'', rs) \<Rightarrow> Some (it'', r # rs)))"

declare interval_tree_augment_propagate.simps [code]

declare min_interval_loop.simps [code]

declare climb.simps [code]

declare interval_tree_next_interval.simps [code]

declare find_loop.simps [code]

declare drain.simps [code]

section \<open>The balancing engine\<close>

text \<open>
  Modelled from the spec: the balancing engine (\<^verbatim>\<open>rb_insert\<close>, \<^verbatim>\<open>rb_unlink\<close> and
  their rotations) is code of the program that is not among the sources. The spec says
  that it links a node in at its place in the order and runs the propagate hook once from
  it, and that it rebalances by rotations, each followed by the rotation-fixup hook
  with the old and the new top of the rotated pair. What follows is that much of it: the
  write of one field of a node, the linking of a node below a given parent (or as the
  root), the two rotations in their usual pointer form, and each step together with its
  hook. The choice of the place and of the rotations (the colours) is left open.
\<close>

definition modify :: "'a heap \<Rightarrow> addr \<Rightarrow> ('a interval_node \<Rightarrow> 'a interval_node) \<Rightarrow> 'a heap option" where
  "modify h a f = (case h a of None \<Rightarrow> None | Some m \<Rightarrow> Some (h(a \<mapsto> f m)))"

datatype side = L | R

definition set_child :: "'a heap \<Rightarrow> addr \<Rightarrow> side \<Rightarrow> addr option \<Rightarrow> 'a heap option" where
  "set_child h a s v =
     (case s of L \<Rightarrow> modify h a (\<lambda>m. m\<lparr>left := v\<rparr>) | R \<Rightarrow> modify h a (\<lambda>m. m\<lparr>right := v\<rparr>))"

text \<open>
  \<open>replace_child\<close>: the parent \<open>p\<close> of the old top gets the new top in the place of
  the old one; without a parent the new top becomes the root.
\<close>

definition replace_child ::
  "'a heap \<times> rb_tree \<Rightarrow> addr option \<Rightarrow> addr \<Rightarrow> addr \<Rightarrow> ('a heap \<times> rb_tree) option" where
  "replace_child s p oldn newn =
     (case p of
        None \<Rightarrow> Some (fst s, (snd s)\<lparr>root := Some newn\<rparr>)
      | Some a \<Rightarrow>
          (case fst s a of
             None \<Rightarrow> None
           | Some m \<Rightarrow>
               map_option (\<lambda>h. (h, snd s))
                 (set_child (fst s) a (if left m = Some oldn then L else R) (Some newn))))"

definition rb_rotate_left :: "'a heap \<times> rb_tree \<Rightarrow> addr \<Rightarrow> ('a heap \<times> rb_tree \<times> addr) option" where
  "rb_rotate_left s n =
     (case fst s n of
        None \<Rightarrow> None
      | Some nn \<Rightarrow>
          (case right nn of
             None \<Rightarrow> None
           | Some r \<Rightarrow>
               (case fst s r of
                  None \<Rightarrow> None
                | Some nr \<Rightarrow>
                    Option.bind (modify (fst s) n (\<lambda>m. m\<lparr>right := left nr\<rparr>)) (\<lambda>h1.
                    Option.bind (case left nr of None \<Rightarrow> Some h1
                                 | Some c \<Rightarrow> modify h1 c (\<lambda>m. m\<lparr>parent := Some n\<rparr>)) (\<lambda>h2.
                    Option.bind (modify h2 r (\<lambda>m. m\<lparr>parent := parent nn\<rparr>)) (\<lambda>h3.
                    Option.bind (replace_child (h3, snd s) (parent nn) n r) (\<lambda>s4.
                    Option.bind (modify (fst s4) r (\<lambda>m. m\<lparr>left := Some n\<rparr>)) (\<lambda>h5.
                    Option.bind (modify h5 n (\<lambda>m. m\<lparr>parent := Some r\<rparr>)) (\<lambda>h6.
                    Some (h6, snd s4, r)))))))))) "

definition rb_rotate_right :: "'a heap \<times> rb_tree \<Rightarrow> addr \<Rightarrow> ('a heap \<times> rb_tree \<times> addr) option" where
  "rb_rotate_right s n =
     (case fst s n of
        None \<Rightarrow> None
      | Some nn \<Rightarrow>
          (case left nn of
             None \<Rightarrow> None
           | Some l \<Rightarrow>
               (case fst s l of
                  None \<Rightarrow> None
                | Some nl \<Rightarrow>
                    Option.bind (modify (fst s) n (\<lambda>m. m\<lparr>left := right nl\<rparr>)) (\<lambda>h1.
                    Option.bind (case right nl of None \<Rightarrow> Some h1
                                 | Some c \<Rightarrow> modify h1 c (\<lambda>m. m\<lparr>parent := Some n\<rparr>)) (\<lambda>h2.
                    Option.bind (modify h2 l (\<lambda>m. m\<lparr>parent := parent nn\<rparr>)) (\<lambda>h3.
                    Option.bind (replace_child (h3, snd s) (parent nn) n l) (\<lambda>s4.
                    Option.bind (modify (fst s4) l (\<lambda>m. m\<lparr>right := Some n\<rparr>)) (\<lambda>h5.
                    Option.bind (modify h5 n (\<lambda>m. m\<lparr>parent := Some l\<rparr>)) (\<lambda>h6.
                    Some (h6, snd s4, l)))))))))) "

text \<open>A rotation with its hook: the old top, then the new top, then its parent.\<close>

definition rotate_left_fixup :: "'a::{linorder,zero} heap \<times> rb_tree \<Rightarrow> addr \<Rightarrow> ('a heap \<times> rb_tree) option" where
  "rotate_left_fixup s n =
     (case rb_rotate_left s n of
        None \<Rightarrow> None
      | Some (h, t, r) \<Rightarrow>
          map_option (\<lambda>h'. (h', t)) (interval_tree_augment_rotate h (Some n) (Some r)))"

definition rotate_right_fixup :: "'a::{linorder,zero} heap \<times> rb_tree \<Rightarrow> addr \<Rightarrow> ('a heap \<times> rb_tree) option" where
  "rotate_right_fixup s n =
     (case rb_rotate_right s n of
        None \<Rightarrow> None
      | Some (h, t, l) \<Rightarrow>
          map_option (\<lambda>h'. (h', t)) (interval_tree_augment_rotate h (Some n) (Some l)))"

text \<open>
  Linking the free-standing node \<open>n\<close> as the \<open>s\<close> child of \<open>p\<close> (as the root
  without a parent), followed by the propagate hook from \<open>n\<close>.
\<close>

definition link_propagate ::
  "'a::{linorder,zero} heap \<times> rb_tree \<Rightarrow> addr \<Rightarrow> (addr \<times> side) option \<Rightarrow> ('a heap \<times> rb_tree) option" where
  "link_propagate s n place =
     Option.bind (modify (fst s) n
        (\<lambda>m. m\<lparr>parent := map_option fst place, left := None, right := None\<rparr>)) (\<lambda>h1.
     Option.bind (case place of
                    None \<Rightarrow> Some (h1, (snd s)\<lparr>root := Some n\<rparr>)
                  | Some (p, sd) \<Rightarrow> map_option (\<lambda>h. (h, snd s)) (set_child h1 p sd (Some n))) (\<lambda>s2.
     map_option (\<lambda>h'. (h', snd s2)) (interval_tree_augment_propagate (fst s2) (Some n))))"

section \<open>Trees in the store\<close>

text \<open>
  The shape of a linked tree, with the contents of every node. \<open>tree_at h par p t\<close>
  says that the pointer \<open>p\<close> is the root of the tree \<open>t\<close> in the store \<open>h\<close> and
  that the parent pointer of that root is \<open>par\<close>: the links are acyclic and every
  parent link agrees with the child link that leads to the node.
\<close>

datatype 'a atree = Tip | Nd "'a atree" addr "'a interval_node" "'a atree"

fun tree_at :: "'a heap \<Rightarrow> addr option \<Rightarrow> addr option \<Rightarrow> 'a atree \<Rightarrow> bool" where
  "tree_at h par p Tip = (p = None)"
| "tree_at h par p (Nd l a nd r) =
     (p = Some a \<and> h a = Some nd \<and> parent nd = par \<and>
      tree_at h (Some a) (left nd) l \<and> tree_at h (Some a) (right nd) r)"

fun inorder :: "'a atree \<Rightarrow> (addr \<times> 'a interval_node) list" where
  "inorder Tip = []"
| "inorder (Nd l a nd r) = inorder l @ (a, nd) # inorder r"

definition addrs :: "'a atree \<Rightarrow> addr list" where
  "addrs t = map fst (inorder t)"

text \<open>The in-order sequence of a tree: every node with its interval.\<close>

definition keys :: "'a atree \<Rightarrow> (addr \<times> 'a \<times> 'a) list" where
  "keys t = map (\<lambda>x. (fst x, low (snd x), high (snd x))) (inorder t)"

fun subtree_of :: "'a atree \<Rightarrow> addr \<Rightarrow> 'a atree" where
  "subtree_of Tip a = Tip"
| "subtree_of (Nd l b nd r) a =
     (if a = b then Nd l b nd r
      else if a \<in> set (addrs l) then subtree_of l a
      else subtree_of r a)"

text \<open>
  The addresses on the way from the root of a tree down to the node at address \<open>a\<close>.
\<close>

fun path_to :: "'a atree \<Rightarrow> addr \<Rightarrow> addr list" where
  "path_to Tip a = []"
| "path_to (Nd l b nd r) a =
     (if a = b then [b]
      else if a \<in> set (addrs l) then b # path_to l a
      else if a \<in> set (addrs r) then b # path_to r a
      else [])"

section \<open>The invariants\<close>

text \<open>The order of the comparator's contract: by \<open>low\<close>, then by \<open>high\<close>.\<close>

definition key_less :: "'a::linorder interval_node \<Rightarrow> 'a interval_node \<Rightarrow> bool" where
  "key_less m n \<longleftrightarrow> low m < low n \<or> (low m = low n \<and> high m < high n)"

fun bst :: "'a::linorder atree \<Rightarrow> bool" where
  "bst Tip = True"
| "bst (Nd l a nd r) =
     (bst l \<and> bst r \<and>
      (\<forall>x \<in> set (inorder l). key_less (snd x) nd) \<and>
      (\<forall>y \<in> set (inorder r). key_less nd (snd y)))"

fun amax :: "'a::zero atree \<Rightarrow> 'a" where
  "amax Tip = 0"
| "amax (Nd l a nd r) = max' nd"

fun asize :: "'a atree \<Rightarrow> 32 word" where
  "asize Tip = 0"
| "asize (Nd l a nd r) = size' nd"

fun aheight :: "'a atree \<Rightarrow> 32 word" where
  "aheight Tip = 0"
| "aheight (Nd l a nd r) = height nd"

text \<open>
  Augmentation consistency, with an absent child counting as 0: the equation of the
  \<open>max\<close> field alone, then the equations of all three fields.
\<close>

fun max_ok :: "'a::{linorder,zero} atree \<Rightarrow> bool" where
  "max_ok Tip = True"
| "max_ok (Nd l a nd r) =
     (max_ok l \<and> max_ok r \<and> max' nd = max_of (max_of (high nd) (amax l)) (amax r))"

fun aug_ok :: "'a::{linorder,zero} atree \<Rightarrow> bool" where
  "aug_ok Tip = True"
| "aug_ok (Nd l a nd r) =
     (aug_ok l \<and> aug_ok r \<and>
      max' nd = max_of (max_of (high nd) (amax l)) (amax r) \<and>
      size' nd = 1 + asize l + asize r \<and>
      height nd = 1 + max_int (aheight l) (aheight r))"

text \<open>
  Augmentation consistency with exceptions: the equations of \<open>max\<close> and \<open>size\<close>
  hold at every node outside \<open>M\<close>, the equation of \<open>height\<close> at every node
  outside \<open>H\<close>.
\<close>

fun fields_ok :: "addr set \<Rightarrow> addr set \<Rightarrow> 'a::{linorder,zero} atree \<Rightarrow> bool" where
  "fields_ok M H Tip = True"
| "fields_ok M H (Nd l a nd r) =
     (fields_ok M H l \<and> fields_ok M H r \<and>
      (a \<notin> M \<longrightarrow> max' nd = max_of (max_of (high nd) (amax l)) (amax r) \<and>
                 size' nd = 1 + asize l + asize r) \<and>
      (a \<notin> H \<longrightarrow> height nd = 1 + max_int (aheight l) (aheight r)))"

definition nonneg :: "'a::{linorder,zero} atree \<Rightarrow> bool" where
  "nonneg t \<longleftrightarrow> (\<forall>x \<in> set (inorder t). 0 \<le> high (snd x))"

text \<open>Two trees with the same nodes, links and intervals; the aggregates may differ.\<close>

definition same_links :: "'a interval_node \<Rightarrow> 'a interval_node \<Rightarrow> bool" where
  "same_links m n \<longleftrightarrow>
     parent m = parent n \<and> left m = left n \<and> right m = right n \<and>
     low m = low n \<and> high m = high n"

fun same_shape :: "'a atree \<Rightarrow> 'a atree \<Rightarrow> bool" where
  "same_shape Tip Tip = True"
| "same_shape (Nd l a nd r) (Nd l' a' nd' r') =
     (a = a' \<and> same_links nd nd' \<and> same_shape l l' \<and> same_shape r r')"
| "same_shape _ _ = False"

text \<open>
  The nodes whose \<open>height\<close> may be stale after a rotation of the old top \<open>n\<close> and
  the new top \<open>y\<close> with its hook, when those of \<open>H\<close> were stale before: the hook
  recomputes \<open>n\<close>, \<open>y\<close> and the parent \<open>p\<close> of the pair, and the parent of
  \<open>p\<close> is left with a child whose height may have changed.
\<close>

definition stale_after :: "'a heap \<Rightarrow> addr set \<Rightarrow> addr \<Rightarrow> addr \<Rightarrow> addr set" where
  "stale_after h H n y =
     (case h n of
        None \<Rightarrow> H
      | Some nn \<Rightarrow>
          (case parent nn of
             None \<Rightarrow> H - {n, y}
           | Some p \<Rightarrow>
               (case h p of
                  None \<Rightarrow> H
                | Some np \<Rightarrow> H - {n, y, p} \<union> set_option (parent np))))"

section \<open>The states of the tree\<close>

text \<open>
  Modelled from the spec: \<^verbatim>\<open>rb_insert\<close> and \<^verbatim>\<open>rb_unlink\<close>, which
  \<^verbatim>\<open>interval_tree_insert\<close> and \<^verbatim>\<open>interval_tree_remove\<close> call, are not among the
  sources. The spec gives their contract: the engine alone writes the linkage; it runs
  the propagate hook once per insertion or removal, from the node where the structural
  change began; it rebalances by rotations, each followed by the rotation-fixup hook.
  \<open>reached\<close> is the set of the states of the store and the tree handle that this
  allows, from the empty tree on:
  \<^item> an insertion links a free-standing node below a node that has no child on that
    side (or as the root of the empty tree), whichever place the comparator leads to,
    and runs the propagate hook from it;
  \<^item> any other structural change, a removal in particular, relinks the tree in some
    way and runs the propagate hook from the node \<open>c\<close> where the change began: the
    nodes that are not on the way from the root to \<open>c\<close> were nodes of the tree before,
    and nothing but their parent link has been written (a run of the propagate hook
    that relinks nothing is the least such change);
  \<^item> a rotation at any node, followed by the rotation-fixup hook.
\<close>

definition kept :: "'a interval_node \<Rightarrow> 'a interval_node \<Rightarrow> bool" where
  "kept m n \<longleftrightarrow> n = m\<lparr>parent := parent n\<rparr>"

definition free_place :: "'a heap \<Rightarrow> 'a atree \<Rightarrow> (addr \<times> side) option \<Rightarrow> bool" where
  "free_place h t place =
     (case place of
        None \<Rightarrow> t = Tip
      | Some (q, sd) \<Rightarrow>
          q \<in> set (addrs t) \<and>
          (case h q of
             None \<Rightarrow> False
           | Some nq \<Rightarrow> (case sd of L \<Rightarrow> left nq | R \<Rightarrow> right nq) = None))"

inductive reached :: "'a::{linorder,zero} heap \<times> rb_tree \<Rightarrow> bool" where
  start: "reached (h, \<lparr>root = None\<rparr>)"
| inserted:
    "reached (h, T) \<Longrightarrow> tree_at h None (root T) t \<Longrightarrow> n \<notin> set (addrs t) \<Longrightarrow>
     free_place h t place \<Longrightarrow> link_propagate (h, T) n place = Some s \<Longrightarrow> reached s"
| relinked:
    "reached (h, T) \<Longrightarrow> tree_at h None (root T) t \<Longrightarrow>
     tree_at h1 None (root T1) t1 \<Longrightarrow> distinct (addrs t1) \<Longrightarrow> c \<in> set (addrs t1) \<Longrightarrow>
     \<forall>a \<in> set (addrs t1) - set (path_to t1 c).
        a \<in> set (addrs t) \<and> (\<exists>m n. h a = Some m \<and> h1 a = Some n \<and> kept m n) \<Longrightarrow>
     interval_tree_augment_propagate h1 (Some c) = Some h' \<Longrightarrow> reached (h', T1)"
| rotated_left:
    "reached (h, T) \<Longrightarrow> tree_at h None (root T) t \<Longrightarrow> n \<in> set (addrs t) \<Longrightarrow>
     rotate_left_fixup (h, T) n = Some s \<Longrightarrow> reached s"
| rotated_right:
    "reached (h, T) \<Longrightarrow> tree_at h None (root T) t \<Longrightarrow> n \<in> set (addrs t) \<Longrightarrow>
     rotate_right_fixup (h, T) n = Some s \<Longrightarrow> reached s"

text \<open>
  The equations of \<open>max\<close> and \<open>size\<close> at a node, read in the store as
  \<^verbatim>\<open>interval_tree_fix_counts\<close> reads them.
\<close>

definition eqs_at :: "'a::{linorder,zero} heap \<Rightarrow> 'a interval_node \<Rightarrow> bool" where
  "eqs_at h m \<longleftrightarrow>
     (\<exists>ml mr sl sr.
        interval_tree_node_max h (left m) = Some ml \<and>
        interval_tree_node_max h (right m) = Some mr \<and>
        interval_tree_node_size h (left m) = Some sl \<and>
        interval_tree_node_size h (right m) = Some sr \<and>
        max' m = max_of (max_of (high m) ml) mr \<and> size' m = 1 + sl + sr)"

text \<open>The tree \<open>t\<close> with the node \<open>n\<close> linked as the \<open>sd\<close> child of \<open>q\<close>.\<close>

fun graft :: "'a atree \<Rightarrow> addr \<Rightarrow> side \<Rightarrow> addr \<Rightarrow> 'a interval_node \<Rightarrow> 'a atree" where
  "graft Tip q sd n m = Tip"
| "graft (Nd l b nd r) q sd n m =
     (if b = q then
        (case sd of
           L \<Rightarrow> Nd (Nd Tip n m Tip) b (nd\<lparr>left := Some n\<rparr>) r
         | R \<Rightarrow> Nd l b (nd\<lparr>right := Some n\<rparr>) (Nd Tip n m Tip))
      else if q \<in> set (addrs l) then Nd (graft l q sd n m) b nd r
      else Nd l b nd (graft r q sd n m))"

section \<open>Reference results\<close>

text \<open>The brute-force scan: the nodes of the tree, in order, that overlap the query.\<close>

definition overlapping :: "'a::linorder atree \<Rightarrow> 'a \<Rightarrow> 'a \<Rightarrow> (addr \<times> 'a interval_node) list" where
  "overlapping t lo hi = filter (\<lambda>x. interval_tree_intersects (snd x) lo hi) (inorder t)"

text \<open>The first node of a list that satisfies \<open>P\<close>, or the default \<open>d\<close>.\<close>

fun first_of :: "('a \<Rightarrow> bool) \<Rightarrow> (addr \<times> 'a) list \<Rightarrow> addr option \<Rightarrow> addr option" where
  "first_of P [] d = d"
| "first_of P (x # xs) d = (if P (snd x) then Some (fst x) else first_of P xs d)"

text \<open>The nodes that follow the node at address \<open>a\<close> in a list of nodes.\<close>

fun after :: "addr \<Rightarrow> (addr \<times> 'b) list \<Rightarrow> (addr \<times> 'b) list" where
  "after a [] = []"
| "after a (x # xs) = (if fst x = a then xs else after a xs)"

text \<open>
  The first ancestor of the node at address \<open>a\<close> that is arrived at from its left
  child on the way up from \<open>a\<close>, the ancestors arrived at from their right child
  being passed; \<open>None\<close> when the way up passes the root of the tree.
\<close>

fun left_ancestor :: "'a atree \<Rightarrow> addr \<Rightarrow> addr option" where
  "left_ancestor Tip a = None"
| "left_ancestor (Nd l b nd r) a =
     (if a \<in> set (addrs l) then
        (case left_ancestor l a of None \<Rightarrow> Some b | Some c \<Rightarrow> Some c)
      else if a \<in> set (addrs r) then left_ancestor r a
      else None)"

text \<open>
  The rest of one round of the outer loop of \<^verbatim>\<open>interval_tree_next_interval\<close>, once
  the right subtree has given no match: the climb from \<open>c\<close> with cursor \<open>n\<close>, the
  test of the ancestor where it stops and, when that ancestor does not overlap, the next
  round.
\<close>

definition ascend :: "'a::linorder heap \<Rightarrow> addr \<Rightarrow> addr option \<Rightarrow> 'a \<Rightarrow> 'a \<Rightarrow> addr option option" where
  "ascend h c n lo hi =
     (case climb h c n of
        None \<Rightarrow> None
      | Some None \<Rightarrow> Some None
      | Some (Some b) \<Rightarrow>
          (case h b of
             None \<Rightarrow> None
           | Some bnd \<Rightarrow>
               if interval_tree_intersects bnd lo hi then Some (Some b)
               else interval_tree_next_interval h (Some b) lo hi))"

section \<open>Example stores\<close>

definition mk_node ::
  "addr option \<Rightarrow> addr option \<Rightarrow> addr option \<Rightarrow> 'a \<Rightarrow> 'a \<Rightarrow> 'a \<Rightarrow> 32 word \<Rightarrow> 32 word \<Rightarrow> 'a interval_node" where
  "mk_node p l r lo hi m s ht =
     \<lparr>parent = p, left = l, right = r, low = lo, high = hi, max' = m, size' = s, height = ht\<rparr>"

text \<open>
  The tree of the spec's example: [1,5], [3,7] and [10,12] were inserted in that order,
  [3,7] is the root.
\<close>

definition ex_heap :: "64 word heap" where
  "ex_heap = [1 \<mapsto> mk_node (Some 2) None None 1 5 5 1 1,
              2 \<mapsto> mk_node None (Some 1) (Some 3) 3 7 12 3 2,
              3 \<mapsto> mk_node (Some 2) None None 10 12 12 1 1]"

definition ex_tree :: "64 word atree" where
  "ex_tree = Nd (Nd Tip 1 (mk_node (Some 2) None None 1 5 5 1 1) Tip)
                2 (mk_node None (Some 1) (Some 3) 3 7 12 3 2)
                (Nd Tip 3 (mk_node (Some 2) None None 10 12 12 1 1) Tip)"

text \<open>[2,3] at the root, [1,10] to its left, [4,8] to its right.\<close>

definition gap_heap :: "64 word heap" where
  "gap_heap = [1 \<mapsto> mk_node (Some 2) None None 1 10 10 1 1,
               2 \<mapsto> mk_node None (Some 1) (Some 3) 2 3 10 3 2,
               3 \<mapsto> mk_node (Some 2) None None 4 8 8 1 1]"

definition gap_tree :: "64 word atree" where
  "gap_tree = Nd (Nd Tip 1 (mk_node (Some 2) None None 1 10 10 1 1) Tip)
                 2 (mk_node None (Some 1) (Some 3) 2 3 10 3 2)
                 (Nd Tip 3 (mk_node (Some 2) None None 4 8 8 1 1) Tip)"

text \<open>
  Endpoints below zero: [-8,-7] at the root, [-10,-9] to its left, [-5,-4] to its
  right; every \<open>max\<close> field is what \<open>interval_tree_fix_counts\<close> computes.
\<close>

definition neg_heap :: "int heap" where
  "neg_heap = [1 \<mapsto> mk_node (Some 2) None None (-10) (-9) 0 1 1,
               2 \<mapsto> mk_node None (Some 1) (Some 3) (-8) (-7) 0 3 2,
               3 \<mapsto> mk_node (Some 2) None None (-5) (-4) 0 1 1]"

definition neg_tree :: "int atree" where
  "neg_tree = Nd (Nd Tip 1 (mk_node (Some 2) None None (-10) (-9) 0 1 1) Tip)
                 2 (mk_node None (Some 1) (Some 3) (-8) (-7) 0 3 2)
                 (Nd Tip 3 (mk_node (Some 2) None None (-5) (-4) 0 1 1) Tip)"

text \<open>A single node that holds [-5,-3], as a caller hands it to insert.\<close>

definition lone_heap :: "int heap" where
  "lone_heap = [1 \<mapsto> mk_node None None None (-5) (-3) (-3) 1 1]"

text \<open>
  A red-black tree of six nodes, node \<open>k\<close> holding [k, k+1]: 20 is the root, 10 (red)
  and 30 are its children, 5 and 15 the children of 10, and 3 (red) the left child of 5.
  Node 1 is free-standing, about to be inserted.
\<close>

definition rb_heap :: "64 word heap" where
  "rb_heap = [20 \<mapsto> mk_node None (Some 10) (Some 30) 20 21 31 6 4,
              10 \<mapsto> mk_node (Some 20) (Some 5) (Some 15) 10 11 16 4 3,
              30 \<mapsto> mk_node (Some 20) None None 30 31 31 1 1,
              5 \<mapsto> mk_node (Some 10) (Some 3) None 5 6 6 2 2,
              15 \<mapsto> mk_node (Some 10) None None 15 16 16 1 1,
              3 \<mapsto> mk_node (Some 5) None None 3 4 4 1 1,
              1 \<mapsto> mk_node None None None 1 2 0 0 0]"

text \<open>
  The same tree once node 1 is linked below node 3 and before the propagate hook has
  run: the fields of the nodes 1, 3, 5, 10 and 20 are stale.
\<close>

definition rb_linked :: "64 word heap" where
  "rb_linked = [20 \<mapsto> mk_node None (Some 10) (Some 30) 20 21 31 6 4,
                10 \<mapsto> mk_node (Some 20) (Some 5) (Some 15) 10 11 16 4 3,
                30 \<mapsto> mk_node (Some 20) None None 30 31 31 1 1,
                5 \<mapsto> mk_node (Some 10) (Some 3) None 5 6 6 2 2,
                15 \<mapsto> mk_node (Some 10) None None 15 16 16 1 1,
                3 \<mapsto> mk_node (Some 5) (Some 1) None 3 4 4 1 1,
                1 \<mapsto> mk_node (Some 3) None None 1 2 0 0 0]"

text \<open>The tree after the propagate hook has run from node 1.\<close>

definition rb_heap2 :: "64 word heap" where
  "rb_heap2 = [20 \<mapsto> mk_node None (Some 10) (Some 30) 20 21 31 7 5,
               10 \<mapsto> mk_node (Some 20) (Some 5) (Some 15) 10 11 16 5 4,
               30 \<mapsto> mk_node (Some 20) None None 30 31 31 1 1,
               5 \<mapsto> mk_node (Some 10) (Some 3) None 5 6 6 3 3,
               15 \<mapsto> mk_node (Some 10) None None 15 16 16 1 1,
               3 \<mapsto> mk_node (Some 5) (Some 1) None 3 4 4 2 2,
               1 \<mapsto> mk_node (Some 3) None None 1 2 2 1 1]"

definition rb_tree2 :: "64 word atree" where
  "rb_tree2 =
     Nd (Nd (Nd (Nd (Nd Tip 1 (mk_node (Some 3) None None 1 2 2 1 1) Tip)
                    3 (mk_node (Some 5) (Some 1) None 3 4 4 2 2) Tip)
                5 (mk_node (Some 10) (Some 3) None 5 6 6 3 3) Tip)
            10 (mk_node (Some 20) (Some 5) (Some 15) 10 11 16 5 4)
            (Nd Tip 15 (mk_node (Some 10) None None 15 16 16 1 1) Tip))
        20 (mk_node None (Some 10) (Some 30) 20 21 31 7 5)
        (Nd Tip 30 (mk_node (Some 20) None None 30 31 31 1 1) Tip)"







section \<open>Lists of nodes and the stored maximum\<close>

lemma first_of_append: "first_of P (xs @ ys) d = first_of P xs (first_of P ys d)"
  by (induction xs) auto

lemma first_of_none: "\<forall>x \<in> set xs. \<not> P (snd x) \<Longrightarrow> first_of P xs d = d"
  by (induction xs) auto

lemma first_of_some: "\<exists>x \<in> set xs. P (snd x) \<Longrightarrow> first_of P xs d = first_of P xs d'"
  by (induction xs) auto

lemma first_of_filter:
  "first_of P xs d = (case filter (\<lambda>x. P (snd x)) xs of [] \<Rightarrow> d | x # _ \<Rightarrow> Some (fst x))"
  by (induction xs) auto

lemma max_of_max: "max_of a b = max a b"
  by (auto simp: max_of_def max_def)

lemma aug_ok_max_ok: "aug_ok t \<Longrightarrow> max_ok t"
  by (induction t) auto

lemma amax_upper: "max_ok t \<Longrightarrow> x \<in> set (inorder t) \<Longrightarrow> high (snd x) \<le> amax t"
  by (induction t) (auto simp: max_of_max max_def split: if_splits)

lemma amax_attained:
  "max_ok t \<Longrightarrow> nonneg t \<Longrightarrow> t \<noteq> Tip \<Longrightarrow> \<exists>x \<in> set (inorder t). amax t \<le> high (snd x)"
proof (induction t)
  case Tip
  then show ?case by simp
next
  case (Nd l a nd r)
  have nl: "nonneg l" and nr: "nonneg r" and n0: "0 \<le> high nd"
    using Nd.prems(2) by (auto simp: nonneg_def)
  have okl: "max_ok l" and okr: "max_ok r"
    and mx: "max' nd = max (max (high nd) (amax l)) (amax r)"
    using Nd.prems(1) by (auto simp: max_of_max)
  have L: "amax l \<le> high nd \<or> (\<exists>x \<in> set (inorder l). amax l \<le> high (snd x))"
  proof (cases l)
    case Tip
    then show ?thesis using n0 by simp
  next
    case (Nd l1 b nb l2)
    then show ?thesis using Nd.IH(1) [OF okl nl] by simp
  qed
  have R: "amax r \<le> high nd \<or> (\<exists>x \<in> set (inorder r). amax r \<le> high (snd x))"
  proof (cases r)
    case Tip
    then show ?thesis using n0 by simp
  next
    case (Nd l1 b nb l2)
    then show ?thesis using Nd.IH(2) [OF okr nr] by simp
  qed
  show ?case
    using L R mx by (auto simp: max_def split: if_splits)
qed

lemma tree_at_None: "tree_at h par None t \<Longrightarrow> t = Tip"
  by (cases t) auto

lemma tree_at_Some:
  "tree_at h par (Some a) t \<Longrightarrow> \<exists>l nd r. t = Nd l a nd r \<and> h a = Some nd"
  by (cases t) auto

lemma min_interval_loop_correct:
  "tree_at h par p t \<Longrightarrow> bst t \<Longrightarrow> max_ok t \<Longrightarrow> nonneg t \<Longrightarrow>
   min_interval_loop h p lo hi mn =
     Some (first_of (\<lambda>n. interval_tree_intersects n lo hi) (inorder t) mn)"
proof (induction t arbitrary: par p mn)
  case Tip
  then show ?case by (simp add: min_interval_loop.simps)
next
  case (Nd l a nd r)
  let ?P = "\<lambda>n. interval_tree_intersects n lo hi"
  have p: "p = Some a" and ha: "h a = Some nd"
    and tl: "tree_at h (Some a) (left nd) l" and tr: "tree_at h (Some a) (right nd) r"
    using Nd.prems(1) by auto
  have bl: "bst l" and br: "bst r" and okl: "max_ok l" and okr: "max_ok r"
    and nl: "nonneg l" and nr: "nonneg r"
    using Nd.prems by (auto simp: nonneg_def)
  have lt: "\<forall>x \<in> set (inorder l). key_less (snd x) nd"
    and gt: "\<forall>y \<in> set (inorder r). key_less nd (snd y)"
    using Nd.prems(2) by auto
  note IHl = Nd.IH(1) [OF tl bl okl nl]
  note IHr = Nd.IH(2) [OF tr br okr nr]
  have skip: "min_interval_loop h p lo hi mn =
      Some (first_of ?P (inorder (Nd l a nd r)) mn)"
    if none: "\<forall>x \<in> set (inorder l). \<not> ?P (snd x)"
      and step: "min_interval_loop h p lo hi mn =
        (if ?P nd then Some (Some a) else min_interval_loop h (right nd) lo hi mn)"
    using step IHr [of mn] first_of_none [OF none]
    by (simp add: first_of_append)
  show ?case
  proof (cases "left nd")
    case None
    then have "l = Tip" using tl tree_at_None by metis
    moreover have "min_interval_loop h p lo hi mn =
        (if ?P nd then Some (Some a) else min_interval_loop h (right nd) lo hi mn)"
      by (subst min_interval_loop.simps) (simp add: p ha None)
    ultimately show ?thesis by (intro skip) auto
  next
    case (Some la)
    then obtain ll lnd lr where l: "l = Nd ll la lnd lr" and hla: "h la = Some lnd"
      using tl tree_at_Some by metis
    have am: "amax l = max' lnd" by (simp add: l)
    show ?thesis
    proof (cases "max' lnd < lo")
      case True
      have "\<forall>x \<in> set (inorder l). \<not> ?P (snd x)"
        using amax_upper [OF okl] True am
        by (fastforce simp: interval_tree_intersects_def)
      moreover have "min_interval_loop h p lo hi mn =
          (if ?P nd then Some (Some a) else min_interval_loop h (right nd) lo hi mn)"
        by (subst min_interval_loop.simps) (simp add: p ha Some hla True)
      ultimately show ?thesis by (intro skip) auto
    next
      case False
      have step: "min_interval_loop h p lo hi mn =
          min_interval_loop h (left nd) lo hi (if ?P nd then Some a else mn)"
        by (subst min_interval_loop.simps) (simp add: p ha Some hla False)
      obtain x where x: "x \<in> set (inorder l)" and xh: "lo \<le> high (snd x)"
        using amax_attained [OF okl nl] False am l by fastforce
      have "first_of ?P (inorder l) (first_of ?P ((a, nd) # inorder r) mn) =
            first_of ?P (inorder l) (if ?P nd then Some a else mn)"
      proof (cases "?P (snd x)")
        case True
        then show ?thesis using x first_of_some by metis
      next
        case nx: False
        then have "hi < low (snd x)"
          using xh by (auto simp: interval_tree_intersects_def)
        moreover have "low (snd x) \<le> low nd"
          using lt x by (auto simp: key_less_def)
        ultimately have lo_nd: "hi < low nd" by simp
        then have "\<forall>y \<in> set (inorder r). \<not> ?P (snd y)"
          using gt by (fastforce simp: key_less_def interval_tree_intersects_def)
        then have "first_of ?P (inorder r) mn = mn" by (rule first_of_none)
        moreover have "\<not> ?P nd"
          using lo_nd by (auto simp: interval_tree_intersects_def)
        ultimately show ?thesis by simp
      qed
      then show ?thesis
        using step IHl [of "if ?P nd then Some a else mn"]
        by (simp add: first_of_append)
    qed
  qed
qed

lemma tree_at_mem: "tree_at h par p t \<Longrightarrow> (a, nd) \<in> set (inorder t) \<Longrightarrow> h a = Some nd"
  by (induction t arbitrary: par p) auto

lemma find_loop_correct:
  "tree_at h par p t \<Longrightarrow> bst t \<Longrightarrow> max_ok t \<Longrightarrow> nonneg t \<Longrightarrow>
   \<exists>res. find_loop h p lo hi = Some res \<and>
     (case res of
        None \<Rightarrow> \<forall>x \<in> set (inorder t). \<not> interval_tree_intersects (snd x) lo hi
      | Some a \<Rightarrow> \<exists>nd. (a, nd) \<in> set (inorder t) \<and> interval_tree_intersects nd lo hi)"
proof (induction t arbitrary: par p)
  case Tip
  then show ?case by (simp add: find_loop.simps)
next
  case (Nd l a nd r)
  let ?P = "\<lambda>n. interval_tree_intersects n lo hi"
  have p: "p = Some a" and ha: "h a = Some nd"
    and tl: "tree_at h (Some a) (left nd) l" and tr: "tree_at h (Some a) (right nd) r"
    using Nd.prems(1) by auto
  have bl: "bst l" and br: "bst r" and okl: "max_ok l" and okr: "max_ok r"
    and nl: "nonneg l" and nr: "nonneg r"
    using Nd.prems by (auto simp: nonneg_def)
  have lt: "\<forall>x \<in> set (inorder l). key_less (snd x) nd"
    and gt: "\<forall>y \<in> set (inorder r). key_less nd (snd y)"
    using Nd.prems(2) by auto
  note IHl = Nd.IH(1) [OF tl bl okl nl]
  note IHr = Nd.IH(2) [OF tr br okr nr]
  show ?case
  proof (cases "?P nd")
    case True
    have "find_loop h p lo hi = Some (Some a)"
      by (subst find_loop.simps) (simp add: p ha True)
    then show ?thesis using True by auto
  next
    case here: False
    have right: ?thesis
      if none: "\<forall>x \<in> set (inorder l). \<not> ?P (snd x)"
        and step: "find_loop h p lo hi = find_loop h (right nd) lo hi"
    proof -
      obtain res where res: "find_loop h (right nd) lo hi = Some res"
        and spec: "case res of
            None \<Rightarrow> \<forall>x \<in> set (inorder r). \<not> ?P (snd x)
          | Some b \<Rightarrow> \<exists>nb. (b, nb) \<in> set (inorder r) \<and> ?P nb"
        using IHr by blast
      show ?thesis
        using res spec step none here by (cases res) auto
    qed
    show ?thesis
    proof (cases "left nd")
      case None
      then have "l = Tip" using tl tree_at_None by metis
      moreover have "find_loop h p lo hi = find_loop h (right nd) lo hi"
        by (subst find_loop.simps) (simp add: p ha None here)
      ultimately show ?thesis by (intro right) auto
    next
      case (Some la)
      then obtain ll lnd lr where l: "l = Nd ll la lnd lr" and hla: "h la = Some lnd"
        using tl tree_at_Some by metis
      have am: "amax l = max' lnd" by (simp add: l)
      show ?thesis
      proof (cases "max' lnd < lo")
        case True
        have "\<forall>x \<in> set (inorder l). \<not> ?P (snd x)"
          using amax_upper [OF okl] True am
          by (fastforce simp: interval_tree_intersects_def)
        moreover have "find_loop h p lo hi = find_loop h (right nd) lo hi"
          by (subst find_loop.simps) (simp add: p ha Some hla True here)
        ultimately show ?thesis by (intro right) auto
      next
        case False
        have step: "find_loop h p lo hi = find_loop h (left nd) lo hi"
          by (subst find_loop.simps) (simp add: p ha Some hla False here)
        obtain res where res: "find_loop h (left nd) lo hi = Some res"
          and spec: "case res of
              None \<Rightarrow> \<forall>x \<in> set (inorder l). \<not> ?P (snd x)
            | Some b \<Rightarrow> \<exists>nb. (b, nb) \<in> set (inorder l) \<and> ?P nb"
          using IHl by blast
        show ?thesis
        proof (cases res)
          case (Some b)
          then show ?thesis using res spec step by auto
        next
          case None
          then have nol: "\<forall>x \<in> set (inorder l). \<not> ?P (snd x)"
            using spec by simp
          obtain x where x: "x \<in> set (inorder l)" and xh: "lo \<le> high (snd x)"
            using amax_attained [OF okl nl] False am l by fastforce
          have "hi < low (snd x)"
            using nol x xh by (auto simp: interval_tree_intersects_def)
          moreover have "low (snd x) \<le> low nd"
            using lt x by (auto simp: key_less_def)
          ultimately have "hi < low nd" by simp
          then have "\<forall>y \<in> set (inorder r). \<not> ?P (snd y)"
            using gt by (fastforce simp: key_less_def interval_tree_intersects_def)
          then show ?thesis
            using res step None nol here by auto
        qed
      qed
    qed
  qed
qed

lemma key_less_trans: "key_less a b \<Longrightarrow> key_less b c \<Longrightarrow> key_less a c"
  by (auto simp: key_less_def)

lemma bst_sorted: "bst t \<Longrightarrow> sorted_wrt key_less (map snd (inorder t))"
  by (induction t) (auto simp: sorted_wrt_append intro: key_less_trans)

lemma overlapping_sorted: "bst t \<Longrightarrow> sorted_wrt key_less (map snd (overlapping t lo hi))"
  unfolding overlapping_def
  using bst_sorted [of t] by (simp add: sorted_wrt_map sorted_wrt_filter)

section \<open>The leftmost overlapping node\<close>

text \<open>
  The walk of \<^verbatim>\<open>interval_tree_min_interval\<close>, for any endpoint type, in a tree that
  stores no high endpoint below the 0 that stands for the \<open>max\<close> of an absent child.
\<close>

lemma min_interval_from_zero:
  assumes "tree_at h par p t" and "bst t" and "aug_ok t" and "nonneg t"
  shows "interval_tree_min_interval h p lo hi =
           Some (case overlapping t lo hi of [] \<Rightarrow> None | x # _ \<Rightarrow> Some (fst x)) \<and>
         (\<forall>x rest. overlapping t lo hi = x # rest \<longrightarrow>
            (\<forall>y \<in> set rest. key_less (snd x) (snd y)))"
proof
  show "interval_tree_min_interval h p lo hi =
          Some (case overlapping t lo hi of [] \<Rightarrow> None | x # _ \<Rightarrow> Some (fst x))"
    unfolding interval_tree_min_interval_def overlapping_def
    using min_interval_loop_correct [OF assms(1,2) aug_ok_max_ok [OF assms(3)] assms(4)]
    by (simp add: first_of_filter)
  show "\<forall>x rest. overlapping t lo hi = x # rest \<longrightarrow>
          (\<forall>y \<in> set rest. key_less (snd x) (snd y))"
    using overlapping_sorted [OF assms(2), of lo hi] by fastforce
qed

lemma nonneg_word: "nonneg (t :: ('w::len) word atree)"
  by (simp add: nonneg_def)

text \<open>
  Claim C6. Endpoints are unsigned words of any width. For every subtree that satisfies
  the ordering and the augmentation invariants, and for all query bounds,
  \<^verbatim>\<open>interval_tree_min_interval\<close> returns the first node of the in-order traversal
  that overlaps the query: it is the head of the brute-force scan, it sorts strictly
  before every other overlapping node, and the result is \<^verbatim>\<open>NULL\<close> exactly when the
  scan is empty.
\<close>

theorem min_interval_first_overlap:
  fixes t :: "('w::len) word atree"
  assumes "tree_at h par p t" and "bst t" and "aug_ok t"
  shows "interval_tree_min_interval h p lo hi =
           Some (case overlapping t lo hi of [] \<Rightarrow> None | x # _ \<Rightarrow> Some (fst x)) \<and>
         (\<forall>x rest. overlapping t lo hi = x # rest \<longrightarrow>
            (\<forall>y \<in> set rest. key_less (snd x) (snd y)))"
  using assms nonneg_word by (rule min_interval_from_zero)

lemmas ex_defs = ex_heap_def ex_tree_def mk_node_def
lemmas rb_defs = rb_heap_def rb_linked_def rb_heap2_def rb_tree2_def mk_node_def
lemmas inv_defs = key_less_def max_of_def max_int_def nonneg_def overlapping_def
  interval_tree_intersects_def

theorem min_interval_first_overlap_witness:
  "tree_at ex_heap None (Some 2) ex_tree \<and> bst ex_tree \<and> aug_ok ex_tree \<and>
   interval_tree_min_interval ex_heap (Some 2) 4 4 = Some (Some 1) \<and>
   interval_tree_min_interval ex_heap (Some 2) 20 30 = Some None"
proof -
  have t: "tree_at ex_heap None (Some 2) ex_tree" by (simp add: ex_defs)
  have b: "bst ex_tree" by (simp add: ex_defs inv_defs)
  have a: "aug_ok ex_tree" by (simp add: ex_defs inv_defs)
  have o1: "overlapping ex_tree 4 4 =
      [(1, mk_node (Some 2) None None 1 5 5 1 1), (2, mk_node None (Some 1) (Some 3) 3 7 12 3 2)]"
    by (simp add: ex_defs inv_defs)
  have o2: "overlapping ex_tree 20 30 = []"
    by (simp add: ex_defs inv_defs)
  show ?thesis
    using t b a min_interval_first_overlap [OF t b a, of 4 4]
      min_interval_first_overlap [OF t b a, of 20 30]
    by (simp add: o1 o2)
qed

section \<open>Single-overlap search\<close>

text \<open>
  The descent of \<^verbatim>\<open>interval_tree_find\<close>, for any endpoint type, in a tree that
  stores no high endpoint below 0.
\<close>

lemma find_from_zero:
  assumes "tree_at h None (root T) t" and "bst t" and "aug_ok t" and "nonneg t"
  shows "\<exists>res. interval_tree_find h T lo hi = Some res \<and>
           (res \<noteq> None \<longleftrightarrow> overlapping t lo hi \<noteq> []) \<and>
           (\<forall>a. res = Some a \<longrightarrow>
              (\<exists>nd. h a = Some nd \<and> (a, nd) \<in> set (inorder t) \<and>
                    high nd \<ge> lo \<and> hi \<ge> low nd))"
proof -
  obtain res where res: "find_loop h (root T) lo hi = Some res"
    and spec: "case res of
        None \<Rightarrow> \<forall>x \<in> set (inorder t). \<not> interval_tree_intersects (snd x) lo hi
      | Some a \<Rightarrow> \<exists>nd. (a, nd) \<in> set (inorder t) \<and> interval_tree_intersects nd lo hi"
    using find_loop_correct [OF assms(1,2) aug_ok_max_ok [OF assms(3)] assms(4)] by blast
  show ?thesis
  proof (cases res)
    case None
    then show ?thesis
      using res spec by (simp add: interval_tree_find_def overlapping_def filter_empty_conv)
  next
    case (Some a)
    then obtain nd where nd: "(a, nd) \<in> set (inorder t)" "interval_tree_intersects nd lo hi"
      using spec by auto
    then have "(a, nd) \<in> set (overlapping t lo hi)"
      by (simp add: overlapping_def)
    then have "overlapping t lo hi \<noteq> []" by auto
    then show ?thesis
      using res Some nd tree_at_mem [OF assms(1) nd(1)]
      by (auto simp: interval_tree_find_def interval_tree_intersects_def)
  qed
qed

text \<open>
  Claim C3. Endpoints are unsigned words of any width. For every tree that satisfies the
  ordering and the augmentation invariants, and for all query bounds,
  \<^verbatim>\<open>interval_tree_find\<close> returns; it returns a node if and only if at least one
  stored interval overlaps the query, and a node it returns is a node of the tree that
  overlaps (its high is at least \<open>lo\<close> and its low at most \<open>hi\<close>).
\<close>

theorem find_iff_overlap:
  fixes t :: "('w::len) word atree"
  assumes "tree_at h None (root T) t" and "bst t" and "aug_ok t"
  shows "\<exists>res. interval_tree_find h T lo hi = Some res \<and>
           (res \<noteq> None \<longleftrightarrow> overlapping t lo hi \<noteq> []) \<and>
           (\<forall>a. res = Some a \<longrightarrow>
              (\<exists>nd. h a = Some nd \<and> (a, nd) \<in> set (inorder t) \<and>
                    high nd \<ge> lo \<and> hi \<ge> low nd))"
  using assms nonneg_word by (rule find_from_zero)

theorem find_iff_overlap_witness:
  "tree_at ex_heap None (root \<lparr>root = Some 2\<rparr>) ex_tree \<and> bst ex_tree \<and> aug_ok ex_tree \<and>
   (\<exists>a. interval_tree_find ex_heap \<lparr>root = Some 2\<rparr> 4 4 = Some (Some a) \<and> (a = 1 \<or> a = 2)) \<and>
   interval_tree_find ex_heap \<lparr>root = Some 2\<rparr> 20 30 = Some None"
proof -
  have t: "tree_at ex_heap None (root \<lparr>root = Some 2\<rparr>) ex_tree" by (simp add: ex_defs)
  have b: "bst ex_tree" by (simp add: ex_defs inv_defs)
  have a: "aug_ok ex_tree" by (simp add: ex_defs inv_defs)
  have o1: "overlapping ex_tree 4 4 \<noteq> []"
    by (simp add: ex_defs inv_defs)
  have o2: "overlapping ex_tree 20 30 = []"
    by (simp add: ex_defs inv_defs)
  have i: "set (inorder ex_tree) =
     {(1, mk_node (Some 2) None None 1 5 5 1 1), (2, mk_node None (Some 1) (Some 3) 3 7 12 3 2),
      (3, mk_node (Some 2) None None 10 12 12 1 1)}"
    by (auto simp add: ex_tree_def)
  have "\<exists>a. interval_tree_find ex_heap \<lparr>root = Some 2\<rparr> 4 4 = Some (Some a) \<and> (a = 1 \<or> a = 2)"
    using find_iff_overlap [OF t b a, of 4 4] o1 unfolding i
    by (auto simp: mk_node_def)
  moreover have "interval_tree_find ex_heap \<lparr>root = Some 2\<rparr> 20 30 = Some None"
    using find_iff_overlap [OF t b a, of 20 30] o2 by auto
  ultimately show ?thesis using t b a by blast
qed

section \<open>The iterator's states\<close>

text \<open>
  Claim C9. An iterator whose current node is absent is exhausted for good: any number
  of further calls of \<^verbatim>\<open>interval_tree_iter_next\<close> return \<^verbatim>\<open>NULL\<close> each and leave
  the iterator as it was, bounds included.
\<close>

theorem iter_next_exhausted:
  assumes "n_it it = None"
  shows "iter_next_calls h k it = Some (it, replicate k None) \<and>
         interval_tree_iter_next h it = Some (it, None)"
proof -
  have one: "interval_tree_iter_next h it = Some (it, None)"
    using assms
    by (simp add: interval_tree_iter_next_def interval_tree_next_interval.simps)
  have "iter_next_calls h k it = Some (it, replicate k None)"
    by (induction k) (simp_all add: one)
  then show ?thesis using one by simp
qed

theorem iter_next_exhausted_witness:
  "n_it \<lparr>low_it = 4 :: 64 word, high_it = 4, n_it = None\<rparr> = None \<and>
   iter_next_calls ex_heap 3 \<lparr>low_it = 4, high_it = 4, n_it = None\<rparr> =
     Some (\<lparr>low_it = 4, high_it = 4, n_it = None\<rparr>, [None, None, None])"
  using iter_next_exhausted [of "\<lparr>low_it = 4 :: 64 word, high_it = 4, n_it = None\<rparr>" ex_heap 3]
  by (simp add: numeral_3_eq_3)

section \<open>The comparator at large endpoints\<close>

text \<open>
  Claim C5 does not hold of the code. The comparator subtracts the endpoints and keeps
  the low 32 bits of the difference as an \<^verbatim>\<open>int\<close>. With 64-bit endpoints the nodes
  [4294967296, 7] and [0, 7] compare as equal although the first sorts after the second;
  with 32-bit endpoints [2147483648, 7] compares as smaller than [0, 7] although it
  sorts after it. The same happens to intervals whose low is at most their high:
  [4294967296, 4294967296] and [0, 4294967296] compare as equal, and
  [2147483648, 2147483648] compares as smaller than [0, 0].
\<close>

theorem cmp_truncates_difference:
  "interval_tree_cmp (mk_node None None None (4294967296 :: 64 word) 7 7 1 1)
                     (mk_node None None None 0 7 7 1 1) = 0 \<and>
   key_less (mk_node None None None (0 :: 64 word) 7 7 1 1)
            (mk_node None None None 4294967296 7 7 1 1) \<and>
   interval_tree_cmp (mk_node None None None (2147483648 :: 32 word) 7 7 1 1)
                     (mk_node None None None 0 7 7 1 1) < 0 \<and>
   key_less (mk_node None None None (0 :: 32 word) 7 7 1 1)
            (mk_node None None None 2147483648 7 7 1 1) \<and>
   interval_tree_cmp (mk_node None None None (4294967296 :: 64 word) 4294967296 4294967296 1 1)
                     (mk_node None None None 0 4294967296 4294967296 1 1) = 0 \<and>
   key_less (mk_node None None None (0 :: 64 word) 4294967296 4294967296 1 1)
            (mk_node None None None 4294967296 4294967296 4294967296 1 1) \<and>
   interval_tree_cmp (mk_node None None None (2147483648 :: 32 word) 2147483648 2147483648 1 1)
                     (mk_node None None None 0 0 0 1 1) < 0 \<and>
   key_less (mk_node None None None (0 :: 32 word) 0 0 1 1)
            (mk_node None None None 2147483648 2147483648 2147483648 1 1)"
  by (simp add: interval_tree_cmp_def to_int_def mk_node_def key_less_def)

section \<open>Clearing the tree\<close>

text \<open>
  Claim C8. \<^verbatim>\<open>interval_tree_clear\<close> leaves the store of the nodes as it is and
  changes the handle only in its root, which becomes \<^verbatim>\<open>NULL\<close>; afterwards, for all
  query bounds, \<^verbatim>\<open>interval_tree_find\<close> returns \<^verbatim>\<open>NULL\<close>, the first call of the
  iterator returns \<^verbatim>\<open>NULL\<close> and the iteration yields nothing.
\<close>

theorem clear_frame:
  "fst (interval_tree_clear (h, t)) = h \<and>
   snd (interval_tree_clear (h, t)) = t\<lparr>root := None\<rparr> \<and>
   interval_tree_find (fst (interval_tree_clear (h, t))) (snd (interval_tree_clear (h, t))) lo hi
     = Some None \<and>
   interval_tree_iter_first (fst (interval_tree_clear (h, t))) (snd (interval_tree_clear (h, t)))
     lo hi it = Some (it\<lparr>low_it := lo, high_it := hi, n_it := None\<rparr>, None) \<and>
   iterate (fst (interval_tree_clear (h, t))) (snd (interval_tree_clear (h, t))) lo hi it
     = Some []"
  by (simp add: interval_tree_clear_def interval_tree_find_def find_loop.simps iterate_def
      interval_tree_iter_first_def interval_tree_min_interval_def min_interval_loop.simps
      drain.simps)

section \<open>Termination of the traversals\<close>

lemma min_interval_loop_returns:
  "tree_at h par p t \<Longrightarrow> \<exists>res. min_interval_loop h p lo hi mn = Some res"
proof (induction t arbitrary: par p mn)
  case Tip
  then show ?case by (simp add: min_interval_loop.simps)
next
  case (Nd l a nd r)
  have p: "p = Some a" and ha: "h a = Some nd"
    and tl: "tree_at h (Some a) (left nd) l" and tr: "tree_at h (Some a) (right nd) r"
    using Nd.prems(1) by auto
  note IHl = Nd.IH(1) [OF tl]
  note IHr = Nd.IH(2) [OF tr]
  show ?case
  proof (cases "left nd")
    case None
    show ?thesis
      using IHr [of mn] by (subst min_interval_loop.simps) (simp add: p ha None)
  next
    case (Some la)
    then obtain ll lnd lr where "l = Nd ll la lnd lr" and hla: "h la = Some lnd"
      using tl tree_at_Some by metis
    show ?thesis
      using IHr [of mn] IHl [of "if interval_tree_intersects nd lo hi then Some a else mn"]
      by (subst min_interval_loop.simps) (simp add: p ha Some hla)
  qed
qed

lemma find_loop_returns:
  "tree_at h par p t \<Longrightarrow> \<exists>res. find_loop h p lo hi = Some res"
proof (induction t arbitrary: par p)
  case Tip
  then show ?case by (simp add: find_loop.simps)
next
  case (Nd l a nd r)
  have p: "p = Some a" and ha: "h a = Some nd"
    and tl: "tree_at h (Some a) (left nd) l" and tr: "tree_at h (Some a) (right nd) r"
    using Nd.prems(1) by auto
  note IHl = Nd.IH(1) [OF tl]
  note IHr = Nd.IH(2) [OF tr]
  show ?case
  proof (cases "left nd")
    case None
    show ?thesis
      using IHr by (subst find_loop.simps) (simp add: p ha None)
  next
    case (Some la)
    then obtain ll lnd lr where "l = Nd ll la lnd lr" and hla: "h la = Some lnd"
      using tl tree_at_Some by metis
    show ?thesis
      using IHr IHl by (subst find_loop.simps) (simp add: p ha Some hla)
  qed
qed

lemma next_interval_unfold:
  "h a = Some nd \<Longrightarrow>
   interval_tree_next_interval h (Some a) lo hi =
     (case (case right nd of None \<Rightarrow> Some None
            | Some r \<Rightarrow> interval_tree_min_interval h (Some r) lo hi) of
        None \<Rightarrow> None
      | Some (Some m) \<Rightarrow> Some (Some m)
      | Some None \<Rightarrow> ascend h a (parent nd) lo hi)"
  by (subst interval_tree_next_interval.simps)
     (simp add: ascend_def split: option.splits)

lemma climb_step:
  "h b = Some nb \<Longrightarrow>
   climb h c (Some b) = (if right nb = Some c then climb h b (parent nb) else Some (Some b))"
  by (subst climb.simps) simp

lemma ascend_root: "ascend h c None lo hi = Some None"
  by (simp add: ascend_def climb.simps)

lemma ascend_from_right:
  "h b = Some nb \<Longrightarrow> right nb = Some c \<Longrightarrow> ascend h c (Some b) lo hi = ascend h b (parent nb) lo hi"
  by (simp add: ascend_def climb_step)

lemma ascend_from_left:
  "h b = Some nb \<Longrightarrow> right nb \<noteq> Some c \<Longrightarrow>
   ascend h c (Some b) lo hi =
     (if interval_tree_intersects nb lo hi then Some (Some b)
      else interval_tree_next_interval h (Some b) lo hi)"
  by (simp add: ascend_def climb_step)

lemma addrs_Nd: "addrs (Nd l a nd r) = addrs l @ a # addrs r"
  by (simp add: addrs_def)

lemma addrs_Tip: "addrs Tip = []"
  by (simp add: addrs_def)

lemma right_min_returns:
  assumes "tree_at h (Some a) (right nd) r"
  shows "\<exists>res. (case right nd of None \<Rightarrow> Some None
                | Some r \<Rightarrow> interval_tree_min_interval h (Some r) lo hi) = Some res"
  using min_interval_loop_returns [OF assms, of lo hi None]
  by (auto simp: interval_tree_min_interval_def split: option.splits)

lemma next_interval_returns_or_ascends:
  "tree_at h par (Some q) t \<Longrightarrow> a \<in> set (addrs t) \<Longrightarrow>
   (\<exists>m. interval_tree_next_interval h (Some a) lo hi = Some (Some m)) \<or>
   interval_tree_next_interval h (Some a) lo hi = ascend h q par lo hi"
proof (induction t arbitrary: par q a)
  case Tip
  then show ?case by simp
next
  case (Nd l b nd r)
  have q: "q = b" and hb: "h b = Some nd" and par: "parent nd = par"
    and tl: "tree_at h (Some b) (left nd) l" and tr: "tree_at h (Some b) (right nd) r"
    using Nd.prems(1) by auto
  have here: "(\<exists>m. interval_tree_next_interval h (Some b) lo hi = Some (Some m)) \<or>
      interval_tree_next_interval h (Some b) lo hi = ascend h b par lo hi"
  proof -
    obtain res where "(case right nd of None \<Rightarrow> Some None
        | Some r \<Rightarrow> interval_tree_min_interval h (Some r) lo hi) = Some res"
      using right_min_returns [OF tr] by blast
    then show ?thesis
      using next_interval_unfold [of h b nd lo hi] hb par by (cases res) auto
  qed
  consider "a = b" | "a \<in> set (addrs l)" | "a \<in> set (addrs r)"
    using Nd.prems(2) by (auto simp: addrs_Nd)
  then show ?case
  proof cases
    case 1
    then show ?thesis using here q by simp
  next
    case 2
    then have "l \<noteq> Tip" by (auto simp: addrs_def)
    then obtain la where la: "left nd = Some la"
      using tl by (cases l) auto
    have "(\<exists>m. interval_tree_next_interval h (Some a) lo hi = Some (Some m)) \<or>
        interval_tree_next_interval h (Some a) lo hi = ascend h la (Some b) lo hi"
      using Nd.IH(1) [OF _ 2] tl la by simp
    moreover have "ascend h la (Some b) lo hi = ascend h b par lo hi \<or>
        ascend h la (Some b) lo hi = Some (Some b) \<or>
        ascend h la (Some b) lo hi = interval_tree_next_interval h (Some b) lo hi"
      using ascend_from_right [of h b nd la lo hi] ascend_from_left [of h b nd la lo hi] hb par
      by (cases "right nd = Some la") auto
    ultimately show ?thesis using here q by auto
  next
    case 3
    then have "r \<noteq> Tip" by (auto simp: addrs_def)
    then obtain ra where ra: "right nd = Some ra"
      using tr by (cases r) auto
    have "(\<exists>m. interval_tree_next_interval h (Some a) lo hi = Some (Some m)) \<or>
        interval_tree_next_interval h (Some a) lo hi = ascend h ra (Some b) lo hi"
      using Nd.IH(2) [OF _ 3] tr ra by simp
    then show ?thesis
      using ascend_from_right [of h b nd ra lo hi] hb ra par q by auto
  qed
qed

lemma climb_returns:
  "tree_at h par (Some q) t \<Longrightarrow> a \<in> set (addrs t) \<Longrightarrow> h a = Some na \<Longrightarrow>
   (\<exists>b. climb h a (parent na) = Some (Some b)) \<or> climb h a (parent na) = climb h q par"
proof (induction t arbitrary: par q a na)
  case Tip
  then show ?case by simp
next
  case (Nd l b nd r)
  have q: "q = b" and hb: "h b = Some nd" and par: "parent nd = par"
    and tl: "tree_at h (Some b) (left nd) l" and tr: "tree_at h (Some b) (right nd) r"
    using Nd.prems(1) by auto
  have up: "(\<exists>x. climb h c (Some b) = Some (Some x)) \<or> climb h c (Some b) = climb h b par" for c
    using hb par by (simp add: climb_step)
  consider "a = b" | "a \<in> set (addrs l)" | "a \<in> set (addrs r)"
    using Nd.prems(2) by (auto simp: addrs_Nd)
  then show ?case
  proof cases
    case 1
    then show ?thesis using hb par q Nd.prems(3) by simp
  next
    case 2
    then have "l \<noteq> Tip" by (auto simp: addrs_def)
    then obtain la where la: "left nd = Some la"
      using tl by (cases l) auto
    have "(\<exists>x. climb h a (parent na) = Some (Some x)) \<or>
        climb h a (parent na) = climb h la (Some b)"
      using Nd.IH(1) [OF _ 2 Nd.prems(3)] tl la by simp
    then show ?thesis using up [of la] q by auto
  next
    case 3
    then have "r \<noteq> Tip" by (auto simp: addrs_def)
    then obtain ra where ra: "right nd = Some ra"
      using tr by (cases r) auto
    have "(\<exists>x. climb h a (parent na) = Some (Some x)) \<or>
        climb h a (parent na) = climb h ra (Some b)"
      using Nd.IH(2) [OF _ 3 Nd.prems(3)] tr ra by simp
    then show ?thesis using up [of ra] q by auto
  qed
qed

lemma subtree_at:
  "tree_at h par p t \<Longrightarrow> a \<in> set (addrs t) \<Longrightarrow> \<exists>par' t'. tree_at h par' (Some a) t'"
proof (induction t arbitrary: par p)
  case Tip
  then show ?case by (simp add: addrs_def)
next
  case (Nd l b nd r)
  consider "a = b" | "a \<in> set (addrs l)" | "a \<in> set (addrs r)"
    using Nd.prems(2) by (auto simp: addrs_Nd)
  then show ?case
  proof cases
    case 1
    have "tree_at h par (Some a) (Nd l b nd r)"
      using Nd.prems(1) 1 by simp
    then show ?thesis by blast
  next
    case 2
    then show ?thesis using Nd.IH(1) Nd.prems(1) by auto
  next
    case 3
    then show ?thesis using Nd.IH(2) Nd.prems(1) by auto
  qed
qed

text \<open>
  Claim C10. In a store whose links form a tree below the root of the handle (acyclic,
  every parent link the inverse of a child link), every traversal returns:
  \<^verbatim>\<open>interval_tree_find\<close> from the root, \<^verbatim>\<open>interval_tree_min_interval\<close> from the
  root and from every node of the tree, the climb of the successor step and
  \<^verbatim>\<open>interval_tree_next_interval\<close> from every node of the tree, and from \<^verbatim>\<open>NULL\<close>.
  A result \<open>Some\<close> says that the loop was left and that no address outside the
  store was read.
\<close>

theorem traversals_return:
  assumes "tree_at h None (root T) t"
  shows "(\<exists>res. interval_tree_find h T lo hi = Some res) \<and>
         (\<exists>res. interval_tree_min_interval h (root T) lo hi = Some res) \<and>
         (\<exists>res. interval_tree_next_interval h None lo hi = Some res) \<and>
         (\<forall>a \<in> set (addrs t).
            (\<exists>res. interval_tree_min_interval h (Some a) lo hi = Some res) \<and>
            (\<exists>nd res. h a = Some nd \<and> climb h a (parent nd) = Some res) \<and>
            (\<exists>res. interval_tree_next_interval h (Some a) lo hi = Some res))"
proof (intro conjI ballI)
  show "\<exists>res. interval_tree_find h T lo hi = Some res"
    using find_loop_returns [OF assms] by (simp add: interval_tree_find_def)
  show "\<exists>res. interval_tree_min_interval h (root T) lo hi = Some res"
    using min_interval_loop_returns [OF assms] by (simp add: interval_tree_min_interval_def)
  show "\<exists>res. interval_tree_next_interval h None lo hi = Some res"
    by (simp add: interval_tree_next_interval.simps)
next
  fix a assume a: "a \<in> set (addrs t)"
  then obtain q where q: "root T = Some q"
    using assms by (cases t) (auto simp: addrs_def)
  obtain par' t' where sub: "tree_at h par' (Some a) t'"
    using subtree_at [OF assms a] by blast
  show "\<exists>res. interval_tree_min_interval h (Some a) lo hi = Some res"
    using min_interval_loop_returns [OF sub] by (simp add: interval_tree_min_interval_def)
  obtain nd where nd: "h a = Some nd"
    using tree_at_Some [OF sub] by blast
  have "climb h q None = Some None" by (simp add: climb.simps)
  then show "\<exists>nd res. h a = Some nd \<and> climb h a (parent nd) = Some res"
    using climb_returns [OF assms [unfolded q] a nd] nd by auto
  show "\<exists>res. interval_tree_next_interval h (Some a) lo hi = Some res"
    using next_interval_returns_or_ascends [OF assms [unfolded q] a, of lo hi]
    by (auto simp: ascend_root)
qed

theorem traversals_return_witness:
  "tree_at gap_heap None (root \<lparr>root = Some 2\<rparr>) gap_tree \<and>
   (\<exists>res. interval_tree_find gap_heap \<lparr>root = Some 2\<rparr> 5 6 = Some res) \<and>
   (\<exists>res. interval_tree_min_interval gap_heap (Some 2) 5 6 = Some res) \<and>
   (\<exists>res. interval_tree_next_interval gap_heap (Some 1) 5 6 = Some res) \<and>
   (\<exists>res. interval_tree_next_interval gap_heap (Some 3) 5 6 = Some res)"
proof -
  have t: "tree_at gap_heap None (root \<lparr>root = Some 2\<rparr>) gap_tree"
    by (simp add: gap_heap_def gap_tree_def mk_node_def)
  have a: "addrs gap_tree = [1, 2, 3]"
    by (simp add: addrs_def gap_tree_def)
  show ?thesis
    using t traversals_return [OF t, of 5 6] unfolding a by simp
qed

section \<open>The successor step\<close>

text \<open>
  Claim C2 as stated fails. In \<open>gap_heap\<close> node 1 holds [1,10] and has no right
  child, the climb from it stops at its parent, node 2, reached from its left child;
  node 2 holds [2,3] and does not overlap the query [5,6]. The call does not report
  exhaustion: the outer loop goes on with node 2 as the current node and returns node 3,
  [4,8], from its right subtree.
\<close>

theorem next_interval_continues_counterexample:
  "gap_heap 1 = Some (mk_node (Some 2) None None 1 10 10 1 1) \<and>
   gap_heap 2 = Some (mk_node None (Some 1) (Some 3) 2 3 10 3 2) \<and>
   climb gap_heap 1 (Some 2) = Some (Some 2) \<and>
   \<not> interval_tree_intersects (mk_node None (Some 1) (Some 3) 2 3 10 3 2) (5 :: 64 word) 6 \<and>
   interval_tree_next_interval gap_heap (Some 1) 5 6 = Some (Some 3)"
  by (simp add: gap_heap_def mk_node_def interval_tree_intersects_def climb.simps
      interval_tree_next_interval.simps interval_tree_min_interval_def min_interval_loop.simps)

lemma left_ancestor_mem: "left_ancestor t a = Some b \<Longrightarrow> b \<in> set (addrs t)"
  by (induction t arbitrary: b) (auto simp: addrs_Nd split: if_splits option.splits)

text \<open>
  The node \<open>left_ancestor t a\<close> has \<open>a\<close> in its left subtree, and inside that
  left subtree the way up from \<open>a\<close> meets no node from its left child.
\<close>

lemma left_ancestor_left:
  "distinct (addrs t) \<Longrightarrow> left_ancestor t a = Some b \<Longrightarrow>
   \<exists>l nd r. subtree_of t b = Nd l b nd r \<and> a \<in> set (addrs l) \<and> left_ancestor l a = None"
proof (induction t)
  case Tip
  then show ?case by simp
next
  case (Nd l c nd r)
  have dl: "distinct (addrs l)" and dr: "distinct (addrs r)"
    and cl: "c \<notin> set (addrs l)" and cr: "c \<notin> set (addrs r)"
    and disj: "set (addrs l) \<inter> set (addrs r) = {}"
    using Nd.prems(1) by (auto simp: addrs_Nd)
  show ?case
  proof (cases "a \<in> set (addrs l)")
    case True
    show ?thesis
    proof (cases "left_ancestor l a")
      case None
      then have "b = c" using Nd.prems(2) True by simp
      then show ?thesis using True None by simp
    next
      case (Some d)
      then have bd: "b = d" using Nd.prems(2) True by simp
      then have bl: "b \<in> set (addrs l)" using Some left_ancestor_mem by metis
      then have "b \<noteq> c" using cl by auto
      then show ?thesis using Nd.IH(1) [OF dl] Some bd bl by simp
    qed
  next
    case False
    then have ar: "a \<in> set (addrs r)" "left_ancestor r a = Some b"
      using Nd.prems(2) by (auto split: if_splits)
    then have br: "b \<in> set (addrs r)" using left_ancestor_mem by metis
    then have "b \<noteq> c" "b \<notin> set (addrs l)" using cr disj by auto
    then show ?thesis using Nd.IH(2) [OF dr ar(2)] by simp
  qed
qed

text \<open>
  The inner loop started at the parent of \<open>a\<close> stops at the first ancestor that is
  arrived at from its left child; when there is none inside the tree \<open>t\<close>, it goes on
  above the root \<open>q\<close> of \<open>t\<close>.
\<close>

lemma climb_left_ancestor:
  "tree_at h par (Some q) t \<Longrightarrow> distinct (addrs t) \<Longrightarrow> a \<in> set (addrs t) \<Longrightarrow>
   h a = Some na \<Longrightarrow>
   climb h a (parent na) =
     (case left_ancestor t a of None \<Rightarrow> climb h q par | Some b \<Rightarrow> Some (Some b))"
proof (induction t arbitrary: par q)
  case Tip
  then show ?case by simp
next
  case (Nd l b nd r)
  have q: "q = b" and hb: "h b = Some nd" and par: "parent nd = par"
    and tl: "tree_at h (Some b) (left nd) l" and tr: "tree_at h (Some b) (right nd) r"
    using Nd.prems(1) by auto
  have dl: "distinct (addrs l)" and dr: "distinct (addrs r)"
    and bl: "b \<notin> set (addrs l)" and br: "b \<notin> set (addrs r)"
    and disj: "set (addrs l) \<inter> set (addrs r) = {}"
    using Nd.prems(2) by (auto simp: addrs_Nd)
  consider "a = b" | "a \<in> set (addrs l)" | "a \<in> set (addrs r)" "a \<notin> set (addrs l)"
    using Nd.prems(3) by (auto simp: addrs_Nd)
  then show ?case
  proof cases
    case 1
    then show ?thesis using hb par q bl br Nd.prems(4) by simp
  next
    case 2
    then obtain ll la nla lr where l: "l = Nd ll la nla lr"
      by (cases l) (auto simp: addrs_Tip)
    have la: "left nd = Some la" "la \<in> set (addrs l)" using tl l by (auto simp: addrs_Nd)
    have "right nd \<noteq> Some la"
    proof
      assume "right nd = Some la"
      then have "la \<in> set (addrs r)" using tr by (cases r) (auto simp: addrs_Nd)
      then show False using la(2) disj by auto
    qed
    then have up: "climb h la (Some b) = Some (Some b)"
      using hb by (simp add: climb_step)
    have "climb h a (parent na) =
        (case left_ancestor l a of None \<Rightarrow> climb h la (Some b) | Some c \<Rightarrow> Some (Some c))"
      using Nd.IH(1) [of "Some b" la] tl la(1) dl 2 Nd.prems(4) by simp
    then show ?thesis using up 2 by (simp split: option.splits)
  next
    case 3
    then obtain rl ra nra rr where r: "r = Nd rl ra nra rr"
      by (cases r) (auto simp: addrs_Tip)
    have ra: "right nd = Some ra" using tr r by auto
    then have up: "climb h ra (Some b) = climb h b par"
      using hb par by (simp add: climb_step)
    have "climb h a (parent na) =
        (case left_ancestor r a of None \<Rightarrow> climb h ra (Some b) | Some c \<Rightarrow> Some (Some c))"
      using Nd.IH(2) [of "Some b" ra] tr ra dr 3(1) Nd.prems(4) by simp
    then show ?thesis using up 3 q by (simp split: option.splits)
  qed
qed

text \<open>
  Claim C2, amended. In a tree of distinct nodes, when the right subtree of the current
  node \<open>a\<close> yields no match, the climb stops at the first ancestor of \<open>a\<close> that is
  arrived at from its left child, \<open>left_ancestor t a\<close>. If that ancestor overlaps the
  query it is returned;
  otherwise the call goes on from that ancestor exactly as a call with it as the current
  node does: its right subtree is searched, then the climb resumes. Exhaustion is
  reported when there is no such ancestor, the climb having passed the root.
\<close>

theorem next_interval_after_climb:
  assumes "tree_at h None (root T) t" and "distinct (addrs t)"
    and "a \<in> set (addrs t)" and "h a = Some nd"
    and "(case right nd of None \<Rightarrow> Some None
          | Some r \<Rightarrow> interval_tree_min_interval h (Some r) lo hi) = Some None"
  shows "climb h a (parent nd) = Some (left_ancestor t a) \<and>
         (left_ancestor t a = None \<longrightarrow>
            interval_tree_next_interval h (Some a) lo hi = Some None) \<and>
         (\<forall>b. left_ancestor t a = Some b \<longrightarrow>
            (\<exists>bnd. h b = Some bnd \<and>
               interval_tree_next_interval h (Some a) lo hi =
                 (if interval_tree_intersects bnd lo hi then Some (Some b)
                  else interval_tree_next_interval h (Some b) lo hi)))"
proof -
  obtain q where q: "root T = Some q"
    using assms(1,3) by (cases t) (auto simp: addrs_Tip)
  have c: "climb h a (parent nd) = Some (left_ancestor t a)"
    using climb_left_ancestor [OF assms(1) [unfolded q] assms(2,3,4)]
    by (simp add: climb.simps split: option.splits)
  have n: "interval_tree_next_interval h (Some a) lo hi =
      (case left_ancestor t a of
         None \<Rightarrow> Some None
       | Some b \<Rightarrow>
           (case h b of
              None \<Rightarrow> None
            | Some bnd \<Rightarrow>
                if interval_tree_intersects bnd lo hi then Some (Some b)
                else interval_tree_next_interval h (Some b) lo hi))"
    using assms(4,5) c by (subst interval_tree_next_interval.simps) simp
  have m: "\<exists>bnd. h b = Some bnd" if "left_ancestor t a = Some b" for b
  proof -
    have "b \<in> set (addrs t)" using that by (rule left_ancestor_mem)
    then obtain bnd where "(b, bnd) \<in> set (inorder t)" by (auto simp: addrs_def)
    then show ?thesis using tree_at_mem [OF assms(1)] by blast
  qed
  show ?thesis
    using c n m by (auto split: option.splits)
qed

text \<open>
  In the tree \<open>rb_tree2\<close> node 15 is the right child of node 10, which is the left
  child of the root 20: the climb from 15 passes 10 and stops at 20. For the query
  [30,30] node 20, which holds [20,21], does not overlap, and the call goes on from it.
\<close>

theorem next_interval_after_climb_witness:
  "tree_at rb_heap2 None (root \<lparr>root = Some 20\<rparr>) rb_tree2 \<and> distinct (addrs rb_tree2) \<and>
   15 \<in> set (addrs rb_tree2) \<and>
   rb_heap2 15 = Some (mk_node (Some 10) None None 15 16 16 1 1) \<and>
   left_ancestor rb_tree2 15 = Some 20 \<and>
   climb rb_heap2 15 (Some 10) = Some (Some 20) \<and>
   \<not> interval_tree_intersects (mk_node None (Some 10) (Some 30) 20 21 31 7 5) (30 :: 64 word) 30 \<and>
   interval_tree_next_interval rb_heap2 (Some 15) 30 30 =
     interval_tree_next_interval rb_heap2 (Some 20) 30 30"
proof -
  have t: "tree_at rb_heap2 None (root \<lparr>root = Some 20\<rparr>) rb_tree2"
    by (simp add: rb_defs)
  have a: "addrs rb_tree2 = [1, 3, 5, 10, 15, 20, 30]"
    by (simp add: addrs_def rb_defs)
  have d: "distinct (addrs rb_tree2)" and m: "15 \<in> set (addrs rb_tree2)"
    unfolding a by simp_all
  have h15: "rb_heap2 15 = Some (mk_node (Some 10) None None 15 16 16 1 1)"
    and h20: "rb_heap2 20 = Some (mk_node None (Some 10) (Some 30) 20 21 31 7 5)"
    by (simp_all add: rb_heap2_def)
  have r: "(case right (mk_node (Some 10) None None (15 :: 64 word) 16 16 1 1) of
              None \<Rightarrow> Some None
            | Some r \<Rightarrow> interval_tree_min_interval rb_heap2 (Some r) 30 30) = Some None"
    by (simp add: mk_node_def)
  have p: "parent (mk_node (Some 10) None None (15 :: 64 word) 16 16 1 1) = Some 10"
    by (simp add: mk_node_def)
  have la: "left_ancestor rb_tree2 15 = Some 20"
    by (simp add: rb_tree2_def addrs_def)
  have n: "\<not> interval_tree_intersects (mk_node None (Some 10) (Some 30) 20 21 31 7 5)
      (30 :: 64 word) 30"
    by (simp add: mk_node_def interval_tree_intersects_def)
  show ?thesis
    using next_interval_after_climb [OF t d m h15 r] t d m h15 h20 n
    unfolding p la by simp
qed

section \<open>The ordered iteration\<close>

lemma after_append:
  "after a (xs @ ys) = (if a \<in> fst ` set xs then after a xs @ ys else after a ys)"
  by (induction xs) auto

lemma after_subset: "set (after a xs) \<subseteq> set xs"
  by (induction xs) auto

lemma after_distinct: "distinct (map fst xs) \<Longrightarrow> distinct (map fst (after a xs))"
  by (induction xs) auto

lemma after_length: "a \<in> fst ` set xs \<Longrightarrow> length (after a xs) < length xs"
  by (induction xs) (auto simp: less_Suc_eq_le intro: le_trans [OF _ length_filter_le] 
      dest: order.strict_implies_order)

lemma after_after:
  "distinct (map fst xs) \<Longrightarrow> m \<in> fst ` set (after a xs) \<Longrightarrow> after m (after a xs) = after m xs"
proof (induction xs)
  case Nil
  then show ?case by simp
next
  case (Cons x xs)
  have "m \<in> fst ` set xs"
    using Cons.prems(2) after_subset [of a xs] by (auto split: if_splits)
  then have "fst x \<noteq> m" using Cons.prems(1) by auto
  then show ?case using Cons by (auto split: if_splits)
qed

lemma first_of_mem:
  "first_of P xs None = Some m \<Longrightarrow> m \<in> fst ` set xs"
  by (induction xs) (auto split: if_splits)

lemma first_of_filter_after:
  "distinct (map fst xs) \<Longrightarrow> first_of P xs None = Some m \<Longrightarrow>
   map fst (filter (\<lambda>x. P (snd x)) xs) = m # map fst (filter (\<lambda>x. P (snd x)) (after m xs))"
proof (induction xs)
  case Nil
  then show ?case by simp
next
  case (Cons x xs)
  show ?case
  proof (cases "P (snd x)")
    case True
    then show ?thesis using Cons.prems by simp
  next
    case False
    then have f: "first_of P xs None = Some m" using Cons.prems(2) by simp
    then have "m \<in> fst ` set xs" by (rule first_of_mem)
    then have "fst x \<noteq> m" using Cons.prems(1) by auto
    then show ?thesis using Cons.IH [OF _ f] Cons.prems(1) False by simp
  qed
qed

lemma first_of_None_filter:
  "first_of P xs None = None \<Longrightarrow> filter (\<lambda>x. P (snd x)) xs = []"
  by (induction xs) (auto split: if_splits)

lemma first_of_default:
  "first_of P xs d = (case first_of P xs None of None \<Rightarrow> d | Some m \<Rightarrow> Some m)"
  by (induction xs) auto

lemma key_less_asym: "key_less m n \<Longrightarrow> \<not> key_less n m"
  by (auto simp: key_less_def)

lemma bst_distinct:
  "tree_at h par p t \<Longrightarrow> bst t \<Longrightarrow> distinct (addrs t)"
proof (induction t arbitrary: par p)
  case Tip
  then show ?case by (simp add: addrs_def)
next
  case (Nd l a nd r)
  have ha: "h a = Some nd"
    and tl: "tree_at h (Some a) (left nd) l" and tr: "tree_at h (Some a) (right nd) r"
    using Nd.prems(1) by auto
  have lt: "\<forall>x \<in> set (inorder l). key_less (snd x) nd"
    and gt: "\<forall>y \<in> set (inorder r). key_less nd (snd y)"
    using Nd.prems(2) by auto
  have dl: "distinct (addrs l)" and dr: "distinct (addrs r)"
    using Nd.IH(1) [OF tl] Nd.IH(2) [OF tr] Nd.prems(2) by auto
  have nl: "a \<notin> set (addrs l)"
  proof
    assume "a \<in> set (addrs l)"
    then obtain n' where m: "(a, n') \<in> set (inorder l)" by (auto simp: addrs_def)
    then have "n' = nd" using tree_at_mem [OF tl m] ha by simp
    moreover have "key_less n' nd" using lt m by force
    ultimately show False using key_less_asym by blast
  qed
  have nr: "a \<notin> set (addrs r)"
  proof
    assume "a \<in> set (addrs r)"
    then obtain n' where m: "(a, n') \<in> set (inorder r)" by (auto simp: addrs_def)
    then have "n' = nd" using tree_at_mem [OF tr m] ha by simp
    moreover have "key_less nd n'" using gt m by force
    ultimately show False using key_less_asym by blast
  qed
  have "set (addrs l) \<inter> set (addrs r) = {}"
  proof (rule ccontr)
    assume "set (addrs l) \<inter> set (addrs r) \<noteq> {}"
    then obtain b n1 n2 where m1: "(b, n1) \<in> set (inorder l)" and m2: "(b, n2) \<in> set (inorder r)"
      by (auto simp: addrs_def)
    have "n1 = n2" using tree_at_mem [OF tl m1] tree_at_mem [OF tr m2] by simp
    moreover have "key_less n1 nd" using lt m1 by force
    moreover have "key_less nd n2" using gt m2 by force
    ultimately show False using key_less_asym by blast
  qed
  then show ?case using dl dr nl nr by (simp add: addrs_Nd)
qed

lemma right_min_correct:
  assumes "tree_at h (Some a) (right nd) r" and "bst r" and "max_ok r" and "nonneg r"
  shows "(case right nd of None \<Rightarrow> Some None
          | Some r \<Rightarrow> interval_tree_min_interval h (Some r) lo hi) =
         Some (first_of (\<lambda>n. interval_tree_intersects n lo hi) (inorder r) None)"
proof (cases "right nd")
  case None
  then have "r = Tip" using assms(1) tree_at_None by metis
  then show ?thesis using None by simp
next
  case (Some ra)
  then show ?thesis
    using min_interval_loop_correct [OF assms, of lo hi None]
    by (simp add: interval_tree_min_interval_def)
qed

lemma next_interval_in_subtree:
  "tree_at h par (Some q) t \<Longrightarrow> bst t \<Longrightarrow> max_ok t \<Longrightarrow> nonneg t \<Longrightarrow>
   distinct (addrs t) \<Longrightarrow> a \<in> set (addrs t) \<Longrightarrow>
   interval_tree_next_interval h (Some a) lo hi =
     (case first_of (\<lambda>n. interval_tree_intersects n lo hi) (after a (inorder t)) None of
        Some m \<Rightarrow> Some (Some m)
      | None \<Rightarrow> ascend h q par lo hi)"
proof (induction t arbitrary: par q a)
  case Tip
  then show ?case by simp
next
  case (Nd l b nd r)
  let ?P = "\<lambda>n. interval_tree_intersects n lo hi"
  have q: "q = b" and hb: "h b = Some nd" and par: "parent nd = par"
    and tl: "tree_at h (Some b) (left nd) l" and tr: "tree_at h (Some b) (right nd) r"
    using Nd.prems(1) by auto
  have bl: "bst l" and br: "bst r" and okl: "max_ok l" and okr: "max_ok r"
    and nl: "nonneg l" and nr: "nonneg r"
    using Nd.prems by (auto simp: nonneg_def)
  have dl: "distinct (addrs l)" and dr: "distinct (addrs r)"
    and bl': "b \<notin> set (addrs l)" and br': "b \<notin> set (addrs r)"
    and disj: "set (addrs l) \<inter> set (addrs r) = {}"
    using Nd.prems(5) by (auto simp: addrs_Nd)
  have here: "interval_tree_next_interval h (Some b) lo hi =
      (case first_of ?P (inorder r) None of
         Some m \<Rightarrow> Some (Some m) | None \<Rightarrow> ascend h b par lo hi)"
    using next_interval_unfold [of h b nd lo hi] hb par
      right_min_correct [OF tr br okr nr, of lo hi]
    by (simp split: option.splits)
  consider "a = b" | "a \<in> set (addrs l)" | "a \<in> set (addrs r)"
    using Nd.prems(6) by (auto simp: addrs_Nd)
  then show ?case
  proof cases
    case 1
    have "after a (inorder (Nd l b nd r)) = inorder r"
      using 1 bl' by (simp add: after_append addrs_def)
    then show ?thesis using here 1 unfolding q by simp
  next
    case 2
    then have "l \<noteq> Tip" by (auto simp: addrs_def)
    then obtain la where la: "left nd = Some la"
      using tl by (cases l) auto
    have rn: "right nd \<noteq> Some la"
    proof
      assume "right nd = Some la"
      then have "la \<in> set (addrs r)" using tr by (cases r) (auto simp: addrs_Nd)
      moreover have "la \<in> set (addrs l)" using tl la by (cases l) (auto simp: addrs_Nd)
      ultimately show False using disj by auto
    qed
    have aft: "after a (inorder (Nd l b nd r)) = after a (inorder l) @ (b, nd) # inorder r"
      using 2 by (simp add: after_append addrs_def)
    have IH: "interval_tree_next_interval h (Some a) lo hi =
        (case first_of ?P (after a (inorder l)) None of
           Some m \<Rightarrow> Some (Some m) | None \<Rightarrow> ascend h la (Some b) lo hi)"
      using Nd.IH(1) [OF _ bl okl nl dl 2] tl la by simp
    have asc: "ascend h la (Some b) lo hi =
        (if ?P nd then Some (Some b) else interval_tree_next_interval h (Some b) lo hi)"
      using ascend_from_left [of h b nd la lo hi] hb rn by simp
    show ?thesis
      unfolding aft first_of_append q
      by (subst first_of_default) (simp add: IH asc here split: option.splits)
  next
    case 3
    then have "r \<noteq> Tip" by (auto simp: addrs_def)
    then obtain ra where ra: "right nd = Some ra"
      using tr by (cases r) auto
    have "a \<noteq> b" "a \<notin> set (addrs l)" using 3 br' disj by auto
    then have aft: "after a (inorder (Nd l b nd r)) = after a (inorder r)"
      by (simp add: after_append addrs_def)
    have IH: "interval_tree_next_interval h (Some a) lo hi =
        (case first_of ?P (after a (inorder r)) None of
           Some m \<Rightarrow> Some (Some m) | None \<Rightarrow> ascend h ra (Some b) lo hi)"
      using Nd.IH(2) [OF _ br okr nr dr 3] tr ra by simp
    show ?thesis
      unfolding aft q
      using IH ascend_from_right [of h b nd ra lo hi] hb ra par
      by (simp split: option.splits)
  qed
qed

lemma drain_correct:
  assumes t: "tree_at h None (Some q) t" and inv: "bst t" "max_ok t" "nonneg t"
  shows "a \<in> set (addrs t) \<Longrightarrow> low_it it = lo \<Longrightarrow> high_it it = hi \<Longrightarrow> n_it it = Some a \<Longrightarrow>
    drain h it (Some a) =
      Some (a # map fst (filter (\<lambda>x. interval_tree_intersects (snd x) lo hi)
                          (after a (inorder t))))"
proof (induction "length (after a (inorder t))" arbitrary: a it rule: less_induct)
  case less
  let ?P = "\<lambda>n. interval_tree_intersects n lo hi"
  have d: "distinct (map fst (inorder t))"
    using bst_distinct [OF t inv(1)] by (simp add: addrs_def)
  have nxt: "interval_tree_next_interval h (Some a) lo hi =
      Some (first_of ?P (after a (inorder t)) None)"
    using next_interval_in_subtree [OF t inv _ less.prems(1), of lo hi] d
    by (simp add: addrs_def ascend_root split: option.splits)
  show ?case
  proof (cases "first_of ?P (after a (inorder t)) None")
    case None
    then show ?thesis
      using nxt less.prems first_of_None_filter [OF None]
      by (subst drain.simps) (simp add: interval_tree_iter_next_def drain.simps)
  next
    case (Some m)
    have m_in: "m \<in> fst ` set (after a (inorder t))"
      using Some by (rule first_of_mem)
    then have m_t: "m \<in> set (addrs t)"
      using after_subset [of a "inorder t"] by (auto simp: addrs_def)
    have aa: "after m (after a (inorder t)) = after m (inorder t)"
      using after_after [OF d m_in] .
    have "length (after m (inorder t)) < length (after a (inorder t))"
      using after_length [OF m_in] aa by simp
    then have IH: "drain h (it\<lparr>n_it := Some m\<rparr>) (Some m) =
        Some (m # map fst (filter (\<lambda>x. ?P (snd x)) (after m (inorder t))))"
      using less.hyps [of m "it\<lparr>n_it := Some m\<rparr>"] m_t less.prems by simp
    have "map fst (filter (\<lambda>x. ?P (snd x)) (after a (inorder t))) =
        m # map fst (filter (\<lambda>x. ?P (snd x)) (after m (inorder t)))"
      using first_of_filter_after [OF after_distinct [OF d] Some] aa by simp
    then show ?thesis
      using nxt less.prems Some IH
      by (subst drain.simps) (simp add: interval_tree_iter_next_def)
  qed
qed

text \<open>
  The whole iteration, for any endpoint type, in a tree that stores no high endpoint
  below 0.
\<close>

lemma iterate_from_zero:
  assumes "tree_at h None (root T) t" and "bst t" and "aug_ok t" and "nonneg t"
  shows "iterate h T lo hi it = Some (map fst (overlapping t lo hi)) \<and>
         sorted_wrt key_less (map snd (overlapping t lo hi))"
proof
  let ?P = "\<lambda>n. interval_tree_intersects n lo hi"
  have first: "interval_tree_min_interval h (root T) lo hi = Some (first_of ?P (inorder t) None)"
    using min_interval_loop_correct [OF assms(1,2) aug_ok_max_ok [OF assms(3)] assms(4), of lo hi None]
    by (simp add: interval_tree_min_interval_def)
  show "iterate h T lo hi it = Some (map fst (overlapping t lo hi))"
  proof (cases "first_of ?P (inorder t) None")
    case None
    then show ?thesis
      using first first_of_None_filter [OF None]
      by (simp add: iterate_def interval_tree_iter_first_def drain.simps overlapping_def)
  next
    case (Some a)
    have a: "a \<in> set (addrs t)"
      using first_of_mem [OF Some] by (simp add: addrs_def)
    then obtain q where q: "root T = Some q"
      using assms(1) by (cases t) (auto simp: addrs_def)
    have d: "distinct (map fst (inorder t))"
      using bst_distinct [OF assms(1,2)] by (simp add: addrs_def)
    have "drain h (it\<lparr>low_it := lo, high_it := hi, n_it := Some a\<rparr>) (Some a) =
        Some (a # map fst (filter (\<lambda>x. ?P (snd x)) (after a (inorder t))))"
      using drain_correct [OF assms(1) [unfolded q] assms(2) aug_ok_max_ok [OF assms(3)] assms(4) a,
          of _ lo hi]
      by simp
    then show ?thesis
      using first Some first_of_filter_after [OF d Some]
      by (simp add: iterate_def interval_tree_iter_first_def overlapping_def)
  qed
  show "sorted_wrt key_less (map snd (overlapping t lo hi))"
    using assms(2) by (rule overlapping_sorted)
qed

text \<open>
  Claim C1. Endpoints are unsigned words of any width. For every tree that satisfies the
  ordering and the augmentation invariants, and for all query bounds, the nodes that
  \<^verbatim>\<open>interval_tree_iter_first\<close> and the calls of \<^verbatim>\<open>interval_tree_iter_next\<close>
  return until the first \<^verbatim>\<open>NULL\<close> are, one for one and in the same order, the
  nodes that the brute-force scan of the in-order traversal keeps; they come in strictly
  ascending (low, high) order.
\<close>

theorem iterate_eq_brute_force:
  fixes t :: "('w::len) word atree"
  assumes "tree_at h None (root T) t" and "bst t" and "aug_ok t"
  shows "iterate h T lo hi it = Some (map fst (overlapping t lo hi)) \<and>
         sorted_wrt key_less (map snd (overlapping t lo hi))"
  using assms nonneg_word by (rule iterate_from_zero)

theorem iterate_eq_brute_force_witness:
  "tree_at ex_heap None (root \<lparr>root = Some 2\<rparr>) ex_tree \<and> bst ex_tree \<and> aug_ok ex_tree \<and>
   iterate ex_heap \<lparr>root = Some 2\<rparr> 4 4 \<lparr>low_it = 0, high_it = 0, n_it = None\<rparr> = Some [1, 2] \<and>
   iterate ex_heap \<lparr>root = Some 2\<rparr> 20 30 \<lparr>low_it = 0, high_it = 0, n_it = None\<rparr> = Some []"
proof -
  have t: "tree_at ex_heap None (root \<lparr>root = Some 2\<rparr>) ex_tree" by (simp add: ex_defs)
  have b: "bst ex_tree" by (simp add: ex_defs inv_defs)
  have a: "aug_ok ex_tree" by (simp add: ex_defs inv_defs)
  have o1: "map fst (overlapping ex_tree 4 4) = [1, 2]"
    by (simp add: ex_defs inv_defs)
  have o2: "overlapping ex_tree 20 30 = []"
    by (simp add: ex_defs inv_defs)
  show ?thesis
    using t b a
      iterate_eq_brute_force [OF t b a, of 4 4 "\<lparr>low_it = 0, high_it = 0, n_it = None\<rparr>"]
      iterate_eq_brute_force [OF t b a, of 20 30 "\<lparr>low_it = 0, high_it = 0, n_it = None\<rparr>"]
    by (simp add: o1 o2)
qed

section \<open>What the max field holds\<close>



section \<open>The augmentation hooks\<close>

lemma fields_ok_cong:
  "M \<inter> set (addrs t) = M' \<inter> set (addrs t) \<Longrightarrow> H \<inter> set (addrs t) = H' \<inter> set (addrs t) \<Longrightarrow>
   fields_ok M H t = fields_ok M' H' t"
proof (induction t)
  case Tip
  then show ?case by simp
next
  case (Nd l a nd r)
  have "M \<inter> set (addrs l) = M' \<inter> set (addrs l)" "H \<inter> set (addrs l) = H' \<inter> set (addrs l)"
    "M \<inter> set (addrs r) = M' \<inter> set (addrs r)" "H \<inter> set (addrs r) = H' \<inter> set (addrs r)"
    "a \<in> M \<longleftrightarrow> a \<in> M'" "a \<in> H \<longleftrightarrow> a \<in> H'"
    using Nd.prems by (auto simp: addrs_Nd)
  then show ?case using Nd.IH by simp
qed

lemma path_to_subset: "set (path_to t a) \<subseteq> set (addrs t)"
  by (induction t) (auto simp: addrs_Nd)

lemma same_shape_addrs: "same_shape t t' \<Longrightarrow> addrs t' = addrs t"
  by (induction t t' rule: same_shape.induct) (auto simp: addrs_Nd addrs_def)

lemma same_shape_refl: "same_shape t t"
  by (induction t) (auto simp: same_links_def)

lemma tree_at_frame:
  "\<forall>x \<in> set (addrs t). h' x = h x \<Longrightarrow> tree_at h' par p t = tree_at h par p t"
  by (induction t arbitrary: par p) (auto simp: addrs_Nd)

lemma node_size_tree: "tree_at h par p t \<Longrightarrow> interval_tree_node_size h p = Some (asize t)"
  by (cases t) (auto simp: interval_tree_node_size_def)

lemma node_height_tree: "tree_at h par p t \<Longrightarrow> interval_tree_node_height h p = Some (aheight t)"
  by (cases t) (auto simp: interval_tree_node_height_def)

lemma node_max_tree: "tree_at h par p t \<Longrightarrow> interval_tree_node_max h p = Some (amax t)"
  by (cases t) (auto simp: interval_tree_node_max_def)

lemma fix_counts_tree:
  assumes "h b = Some nd" and "tree_at h (Some b) (left nd) l" and "tree_at h (Some b) (right nd) r"
  shows "interval_tree_fix_counts h (Some b) =
    Some (h(b \<mapsto> nd\<lparr>size' := 1 + asize l + asize r,
                    height := 1 + max_int (aheight l) (aheight r),
                    max' := max_of (max_of (high nd) (amax l)) (amax r)\<rparr>))"
  using assms(1) node_size_tree [OF assms(2)] node_size_tree [OF assms(3)]
    node_height_tree [OF assms(2)] node_height_tree [OF assms(3)]
    node_max_tree [OF assms(2)] node_max_tree [OF assms(3)]
  by (simp add: interval_tree_fix_counts_def)

lemma addrs_keys: "addrs t = map fst (keys t)"
  by (simp add: addrs_def keys_def)

lemma keys_Nd: "keys (Nd l a nd r) = keys l @ (a, low nd, high nd) # keys r"
  by (simp add: keys_def)

lemma fix_counts_step:
  assumes hb: "h b = Some nd"
    and tl: "tree_at h (Some b) (left nd) l" and tr: "tree_at h (Some b) (right nd) r"
    and bl: "b \<notin> set (addrs l)" and br: "b \<notin> set (addrs r)"
  shows "\<exists>nd'. interval_tree_fix_counts h (Some b) = Some (h(b \<mapsto> nd')) \<and> same_links nd nd' \<and>
     tree_at (h(b \<mapsto> nd')) (parent nd) (Some b) (Nd l b nd' r) \<and>
     max' nd' = max_of (max_of (high nd) (amax l)) (amax r) \<and>
     size' nd' = 1 + asize l + asize r \<and>
     height nd' = 1 + max_int (aheight l) (aheight r)"
proof -
  let ?nd = "nd\<lparr>size' := 1 + asize l + asize r,
                 height := 1 + max_int (aheight l) (aheight r),
                 max' := max_of (max_of (high nd) (amax l)) (amax r)\<rparr>"
  have fx: "interval_tree_fix_counts h (Some b) = Some (h(b \<mapsto> ?nd))"
    using fix_counts_tree [OF hb tl tr] .
  have "tree_at (h(b \<mapsto> ?nd)) (Some b) (left nd) l" "tree_at (h(b \<mapsto> ?nd)) (Some b) (right nd) r"
    using tl tr bl br tree_at_frame [of l "h(b \<mapsto> ?nd)" h] tree_at_frame [of r "h(b \<mapsto> ?nd)" h]
    by auto
  then have "tree_at (h(b \<mapsto> ?nd)) (parent nd) (Some b) (Nd l b ?nd r)"
    by simp
  moreover have "same_links nd ?nd" by (simp add: same_links_def)
  ultimately show ?thesis using fx by (intro exI [of _ ?nd]) simp
qed

text \<open>
  One round of the loop of \<^verbatim>\<open>interval_tree_augment_propagate\<close> at the root \<open>b\<close> of
  a subtree: the three equations hold at \<open>b\<close> afterwards and the loop goes on with the
  parent.
\<close>

lemma propagate_step:
  assumes hb: "h b = Some nd" and par: "parent nd = par"
    and tl: "tree_at h (Some b) (left nd) l" and tr: "tree_at h (Some b) (right nd) r"
    and bl: "b \<notin> set (addrs l)" and br: "b \<notin> set (addrs r)"
  shows "\<exists>nd'. same_links nd nd' \<and>
     interval_tree_augment_propagate h (Some b) = interval_tree_augment_propagate (h(b \<mapsto> nd')) par \<and>
     tree_at (h(b \<mapsto> nd')) par (Some b) (Nd l b nd' r) \<and>
     max' nd' = max_of (max_of (high nd') (amax l)) (amax r) \<and>
     size' nd' = 1 + asize l + asize r \<and>
     height nd' = 1 + max_int (aheight l) (aheight r)"
proof -
  obtain nd' where fx: "interval_tree_fix_counts h (Some b) = Some (h(b \<mapsto> nd'))"
    and sl: "same_links nd nd'"
    and t': "tree_at (h(b \<mapsto> nd')) (parent nd) (Some b) (Nd l b nd' r)"
    and eqs: "max' nd' = max_of (max_of (high nd) (amax l)) (amax r)"
      "size' nd' = 1 + asize l + asize r" "height nd' = 1 + max_int (aheight l) (aheight r)"
    using fix_counts_step [OF hb tl tr bl br] by blast
  have step: "interval_tree_augment_propagate h (Some b) =
      interval_tree_augment_propagate (h(b \<mapsto> nd')) par"
    using sl par
    by (subst interval_tree_augment_propagate.simps) (simp add: fx same_links_def)
  show ?thesis
    using sl step t' eqs par by (intro exI [of _ nd']) (simp add: same_links_def)
qed

text \<open>
  The propagate hook from \<open>a\<close>, seen from a subtree that holds \<open>a\<close>: the nodes on
  the way from the top of the subtree down to \<open>a\<close> are recomputed, bottom up, and the
  loop goes on with the parent of the subtree. \<open>H\<close> are nodes whose \<open>height\<close> may
  have been stale before.
\<close>

lemma propagate_subtree:
  "tree_at h par (Some q) t \<Longrightarrow> distinct (addrs t) \<Longrightarrow> a \<in> set (addrs t) \<Longrightarrow>
   fields_ok (set (path_to t a)) (set (path_to t a) \<union> H) t \<Longrightarrow>
   \<exists>h' t'. interval_tree_augment_propagate h (Some a) = interval_tree_augment_propagate h' par \<and>
     tree_at h' par (Some q) t' \<and> same_shape t t' \<and> fields_ok {} (H - set (path_to t a)) t' \<and>
     (\<forall>x. x \<notin> set (path_to t a) \<longrightarrow> h' x = h x)"
proof (induction t arbitrary: par q h)
  case Tip
  then show ?case by simp
next
  case (Nd l b nd r)
  have q: "q = b" and hb: "h b = Some nd" and par: "parent nd = par"
    and tl: "tree_at h (Some b) (left nd) l" and tr: "tree_at h (Some b) (right nd) r"
    using Nd.prems(1) by auto
  have dl: "distinct (addrs l)" and dr: "distinct (addrs r)"
    and bl: "b \<notin> set (addrs l)" and br: "b \<notin> set (addrs r)"
    and disj: "set (addrs l) \<inter> set (addrs r) = {}"
    using Nd.prems(2) by (auto simp: addrs_Nd)
  let ?P = "set (path_to (Nd l b nd r) a)"
  have okl: "fields_ok ?P (?P \<union> H) l" and okr: "fields_ok ?P (?P \<union> H) r"
    using Nd.prems(4) by auto
  have top: "fields_ok {} X (Nd l' b nd' r')"
    if "fields_ok {} X l'" "fields_ok {} X r'"
      "max' nd' = max_of (max_of (high nd') (amax l')) (amax r')"
      "size' nd' = 1 + asize l' + asize r'" "height nd' = 1 + max_int (aheight l') (aheight r')"
    for X l' r' nd'
    using that by simp
  consider "a = b" | "a \<in> set (addrs l)" | "a \<in> set (addrs r)"
    using Nd.prems(3) by (auto simp: addrs_Nd)
  then show ?case
  proof cases
    case 1
    have P: "?P = {b}" using 1 by simp
    have fl: "fields_ok {} (H - ?P) l"
      using okl fields_ok_cong [of ?P l "{}" "?P \<union> H" "H - ?P"] P bl by auto
    have fr: "fields_ok {} (H - ?P) r"
      using okr fields_ok_cong [of ?P r "{}" "?P \<union> H" "H - ?P"] P br by auto
    obtain nd' where sl: "same_links nd nd'"
      and step: "interval_tree_augment_propagate h (Some b) =
        interval_tree_augment_propagate (h(b \<mapsto> nd')) par"
      and t': "tree_at (h(b \<mapsto> nd')) par (Some b) (Nd l b nd' r)"
      and eqs: "max' nd' = max_of (max_of (high nd') (amax l)) (amax r)"
        "size' nd' = 1 + asize l + asize r" "height nd' = 1 + max_int (aheight l) (aheight r)"
      using propagate_step [OF hb par tl tr bl br] by blast
    show ?thesis
    proof (intro exI conjI)
      show "interval_tree_augment_propagate h (Some a) =
          interval_tree_augment_propagate (h(b \<mapsto> nd')) par"
        using step 1 by simp
      show "tree_at (h(b \<mapsto> nd')) par (Some q) (Nd l b nd' r)" using t' q by simp
      show "same_shape (Nd l b nd r) (Nd l b nd' r)" using sl by (simp add: same_shape_refl)
      show "fields_ok {} (H - ?P) (Nd l b nd' r)" using top fl fr eqs by blast
      show "\<forall>x. x \<notin> ?P \<longrightarrow> (h(b \<mapsto> nd')) x = h x" using 1 by simp
    qed
  next
    case 2
    then have ab: "a \<noteq> b" using bl by auto
    have P: "?P = insert b (set (path_to l a))" using 2 ab by simp
    have sub: "set (path_to l a) \<subseteq> set (addrs l)" by (rule path_to_subset)
    have "l \<noteq> Tip" using 2 by (auto simp: addrs_def)
    then obtain la where la: "left nd = Some la"
      using tl by (cases l) auto
    have "fields_ok (set (path_to l a)) (set (path_to l a) \<union> H) l"
      using okl fields_ok_cong [of ?P l "set (path_to l a)" "?P \<union> H" "set (path_to l a) \<union> H"]
        P bl
      by auto
    then obtain h1 l' where
      step1: "interval_tree_augment_propagate h (Some a) =
        interval_tree_augment_propagate h1 (Some b)"
      and tl1: "tree_at h1 (Some b) (Some la) l'" and sh: "same_shape l l'"
      and okl': "fields_ok {} (H - set (path_to l a)) l'"
      and fr: "\<forall>x. x \<notin> set (path_to l a) \<longrightarrow> h1 x = h x"
      using Nd.IH(1) [of h "Some b" la] tl la dl 2 by auto
    have al': "addrs l' = addrs l" using sh by (rule same_shape_addrs)
    have hb1: "h1 b = Some nd" using fr sub bl hb by auto
    have "\<forall>x \<in> set (addrs r). h1 x = h x" using fr sub disj by auto
    then have tr1: "tree_at h1 (Some b) (right nd) r"
      using tr tree_at_frame by metis
    have fl': "fields_ok {} (H - ?P) l'"
      using okl' fields_ok_cong [of "{}" l' "{}" "H - set (path_to l a)" "H - ?P"] P bl al'
      by auto
    have fr': "fields_ok {} (H - ?P) r"
      using okr fields_ok_cong [of ?P r "{}" "?P \<union> H" "H - ?P"] P br sub disj
      by auto
    obtain nd' where sl: "same_links nd nd'"
      and step2: "interval_tree_augment_propagate h1 (Some b) =
        interval_tree_augment_propagate (h1(b \<mapsto> nd')) par"
      and t': "tree_at (h1(b \<mapsto> nd')) par (Some b) (Nd l' b nd' r)"
      and eqs: "max' nd' = max_of (max_of (high nd') (amax l')) (amax r)"
        "size' nd' = 1 + asize l' + asize r" "height nd' = 1 + max_int (aheight l') (aheight r)"
      using propagate_step [OF hb1 par _ tr1 _ br, of l'] tl1 la al' bl by auto
    show ?thesis
    proof (intro exI conjI)
      show "interval_tree_augment_propagate h (Some a) =
          interval_tree_augment_propagate (h1(b \<mapsto> nd')) par"
        using step1 step2 by simp
      show "tree_at (h1(b \<mapsto> nd')) par (Some q) (Nd l' b nd' r)" using t' q by simp
      show "same_shape (Nd l b nd r) (Nd l' b nd' r)"
        using sl sh by (simp add: same_shape_refl)
      show "fields_ok {} (H - ?P) (Nd l' b nd' r)" using top fl' fr' eqs by blast
      show "\<forall>x. x \<notin> ?P \<longrightarrow> (h1(b \<mapsto> nd')) x = h x" using fr P by simp
    qed
  next
    case 3
    then have ab: "a \<noteq> b" and nal: "a \<notin> set (addrs l)" using br disj by auto
    have P: "?P = insert b (set (path_to r a))" using 3 ab nal by simp
    have sub: "set (path_to r a) \<subseteq> set (addrs r)" by (rule path_to_subset)
    have "r \<noteq> Tip" using 3 by (auto simp: addrs_def)
    then obtain ra where ra: "right nd = Some ra"
      using tr by (cases r) auto
    have "fields_ok (set (path_to r a)) (set (path_to r a) \<union> H) r"
      using okr fields_ok_cong [of ?P r "set (path_to r a)" "?P \<union> H" "set (path_to r a) \<union> H"]
        P br
      by auto
    then obtain h1 r' where
      step1: "interval_tree_augment_propagate h (Some a) =
        interval_tree_augment_propagate h1 (Some b)"
      and tr1: "tree_at h1 (Some b) (Some ra) r'" and sh: "same_shape r r'"
      and okr': "fields_ok {} (H - set (path_to r a)) r'"
      and fr: "\<forall>x. x \<notin> set (path_to r a) \<longrightarrow> h1 x = h x"
      using Nd.IH(2) [of h "Some b" ra] tr ra dr 3 by auto
    have ar': "addrs r' = addrs r" using sh by (rule same_shape_addrs)
    have hb1: "h1 b = Some nd" using fr sub br hb by auto
    have "\<forall>x \<in> set (addrs l). h1 x = h x" using fr sub disj by auto
    then have tl1: "tree_at h1 (Some b) (left nd) l"
      using tl tree_at_frame by metis
    have fr'': "fields_ok {} (H - ?P) r'"
      using okr' fields_ok_cong [of "{}" r' "{}" "H - set (path_to r a)" "H - ?P"] P br ar'
      by auto
    have fl': "fields_ok {} (H - ?P) l"
      using okl fields_ok_cong [of ?P l "{}" "?P \<union> H" "H - ?P"] P bl sub disj
      by auto
    obtain nd' where sl: "same_links nd nd'"
      and step2: "interval_tree_augment_propagate h1 (Some b) =
        interval_tree_augment_propagate (h1(b \<mapsto> nd')) par"
      and t': "tree_at (h1(b \<mapsto> nd')) par (Some b) (Nd l b nd' r')"
      and eqs: "max' nd' = max_of (max_of (high nd') (amax l)) (amax r')"
        "size' nd' = 1 + asize l + asize r'" "height nd' = 1 + max_int (aheight l) (aheight r')"
      using propagate_step [OF hb1 par tl1 _ bl, of r'] tr1 ra ar' br by auto
    show ?thesis
    proof (intro exI conjI)
      show "interval_tree_augment_propagate h (Some a) =
          interval_tree_augment_propagate (h1(b \<mapsto> nd')) par"
        using step1 step2 by simp
      show "tree_at (h1(b \<mapsto> nd')) par (Some q) (Nd l b nd' r')" using t' q by simp
      show "same_shape (Nd l b nd r) (Nd l b nd' r')"
        using sl sh by (simp add: same_shape_refl)
      show "fields_ok {} (H - ?P) (Nd l b nd' r')" using top fl' fr'' eqs by blast
      show "\<forall>x. x \<notin> ?P \<longrightarrow> (h1(b \<mapsto> nd')) x = h x" using fr P by simp
    qed
  qed
qed

section \<open>Rotations and the rotation-fixup hook\<close>

lemma rb_rotate_left_heap:
  assumes n: "h n = Some nn" and r: "right nn = Some r" "h r = Some nr" "r \<noteq> n"
    and c: "\<And>c. left nr = Some c \<Longrightarrow> c \<noteq> n \<and> c \<noteq> r \<and> h c \<noteq> None"
    and p: "\<And>p. parent nn = Some p \<Longrightarrow> p \<noteq> n \<and> p \<noteq> r \<and> left nr \<noteq> Some p \<and> h p \<noteq> None"
  shows "\<exists>ha. rb_rotate_left (h, T) n =
           Some (ha, (case parent nn of None \<Rightarrow> T\<lparr>root := Some r\<rparr> | Some _ \<Rightarrow> T), r) \<and>
         ha n = Some (nn\<lparr>right := left nr, parent := Some r\<rparr>) \<and>
         ha r = Some (nr\<lparr>parent := parent nn, left := Some n\<rparr>) \<and>
         (\<forall>c nc. left nr = Some c \<longrightarrow> h c = Some nc \<longrightarrow> ha c = Some (nc\<lparr>parent := Some n\<rparr>)) \<and>
         (\<forall>p np. parent nn = Some p \<longrightarrow> h p = Some np \<longrightarrow>
            ha p = Some (if left np = Some n then np\<lparr>left := Some r\<rparr> else np\<lparr>right := Some r\<rparr>)) \<and>
         (\<forall>z. z \<noteq> n \<longrightarrow> z \<noteq> r \<longrightarrow> left nr \<noteq> Some z \<longrightarrow> parent nn \<noteq> Some z \<longrightarrow> ha z = h z)"
proof (cases "left nr")
  case None
  show ?thesis
  proof (cases "parent nn")
    case pn: None
    show ?thesis
      using n r None pn
      by (simp add: rb_rotate_left_def modify_def replace_child_def)
  next
    case (Some p')
    then obtain np where "h p' = Some np" "p' \<noteq> n" "p' \<noteq> r"
      using p [of p'] by auto
    then show ?thesis
      using n r None Some
      by (auto simp: rb_rotate_left_def modify_def replace_child_def set_child_def)
  qed
next
  case (Some c')
  then obtain nc where cf: "h c' = Some nc" "c' \<noteq> n" "c' \<noteq> r"
    using c [of c'] by auto
  show ?thesis
  proof (cases "parent nn")
    case None
    show ?thesis
      using n r Some None cf
      by (auto simp: rb_rotate_left_def modify_def replace_child_def)
  next
    case pp: (Some p')
    then obtain np where "h p' = Some np" "p' \<noteq> n" "p' \<noteq> r" "p' \<noteq> c'"
      using p [of p'] Some by auto
    then show ?thesis
      using n r Some pp cf
      by (auto simp: rb_rotate_left_def modify_def replace_child_def set_child_def)
  qed
qed

lemma tree_at_reparent:
  assumes t: "tree_at h par p t" and d: "distinct (addrs t)"
    and c: "\<And>c nc. p = Some c \<Longrightarrow> h c = Some nc \<Longrightarrow> h' c = Some (nc\<lparr>parent := par'\<rparr>)"
    and fr: "\<And>z. z \<in> set (addrs t) \<Longrightarrow> p \<noteq> Some z \<Longrightarrow> h' z = h z"
  shows "\<exists>t'. tree_at h' par' p t' \<and> keys t' = keys t \<and>
           (\<forall>M H. fields_ok M H t' \<longleftrightarrow> fields_ok M H t) \<and>
           amax t' = amax t \<and> asize t' = asize t \<and> aheight t' = aheight t"
proof (cases t)
  case Tip
  then show ?thesis using t by (intro exI [of _ Tip]) simp
next
  case (Nd l a nd r)
  have pa: "p = Some a" and ha: "h a = Some nd"
    and tl: "tree_at h (Some a) (left nd) l" and tr: "tree_at h (Some a) (right nd) r"
    using t Nd by auto
  have al: "a \<notin> set (addrs l)" and ar: "a \<notin> set (addrs r)"
    using d Nd by (auto simp: addrs_Nd)
  have "\<forall>z \<in> set (addrs l). h' z = h z" "\<forall>z \<in> set (addrs r). h' z = h z"
    using fr pa al ar Nd by (auto simp: addrs_Nd)
  then have "tree_at h' (Some a) (left nd) l" "tree_at h' (Some a) (right nd) r"
    using tl tr tree_at_frame by metis+
  then have "tree_at h' par' p (Nd l a (nd\<lparr>parent := par'\<rparr>) r)"
    using c [OF pa ha] pa by simp
  then show ?thesis
    unfolding Nd by (intro exI [of _ "Nd l a (nd\<lparr>parent := par'\<rparr>) r"]) (simp add: keys_Nd)
qed

lemma max_rot: "max (max hr (max (max hn al) arl)) arr = max (max hn al) (max (max hr arl) (arr::'a::linorder))"
  by (simp add: max.assoc max.left_commute)

lemma rotate_left_subtree:
  assumes s: "tree_at h pp (Some n) (Nd l n nn (Nd rl r nr rr))"
    and d: "distinct (addrs (Nd l n nn (Nd rl r nr rr)))"
    and ok: "fields_ok {} H (Nd l n nn (Nd rl r nr rr))"
    and p: "\<And>p. pp = Some p \<Longrightarrow> p \<notin> set (addrs (Nd l n nn (Nd rl r nr rr))) \<and> h p \<noteq> None"
  shows "\<exists>ha hb hc B nr'.
     rb_rotate_left (h, T) n =
       Some (ha, (case pp of None \<Rightarrow> T\<lparr>root := Some r\<rparr> | Some _ \<Rightarrow> T), r) \<and>
     interval_tree_fix_counts ha (Some n) = Some hb \<and>
     interval_tree_fix_counts hb (Some r) = Some hc \<and>
     hc r = Some nr' \<and> parent nr' = pp \<and>
     tree_at hc pp (Some r) B \<and> fields_ok {} (H - {n, r}) B \<and>
     amax B = amax (Nd l n nn (Nd rl r nr rr)) \<and> asize B = asize (Nd l n nn (Nd rl r nr rr)) \<and>
     keys B = keys (Nd l n nn (Nd rl r nr rr)) \<and>
     (\<forall>p np. pp = Some p \<longrightarrow> h p = Some np \<longrightarrow>
        hc p = Some (if left np = Some n then np\<lparr>left := Some r\<rparr> else np\<lparr>right := Some r\<rparr>)) \<and>
     (\<forall>z. z \<notin> set (addrs (Nd l n nn (Nd rl r nr rr))) \<longrightarrow> pp \<noteq> Some z \<longrightarrow> hc z = h z)"
proof -
  let ?s = "Nd l n nn (Nd rl r nr rr)"
  have hn: "h n = Some nn" and pn: "parent nn = pp" and tl: "tree_at h (Some n) (left nn) l"
    and rn: "right nn = Some r" and hr: "h r = Some nr" and pr: "parent nr = Some n"
    and trl: "tree_at h (Some r) (left nr) rl" and trr: "tree_at h (Some r) (right nr) rr"
    using s by auto
  have as: "set (addrs ?s) = insert n (insert r (set (addrs l) \<union> set (addrs rl) \<union> set (addrs rr)))"
    by (auto simp: addrs_Nd)
  have nr_ne: "r \<noteq> n"
    and nl: "n \<notin> set (addrs l)" and nrl: "n \<notin> set (addrs rl)" and nrr: "n \<notin> set (addrs rr)"
    and rl_: "r \<notin> set (addrs l)" and rrl: "r \<notin> set (addrs rl)" and rrr: "r \<notin> set (addrs rr)"
    and dl: "distinct (addrs l)" and drl: "distinct (addrs rl)" and drr: "distinct (addrs rr)"
    and l_rl: "set (addrs l) \<inter> set (addrs rl) = {}" and l_rr: "set (addrs l) \<inter> set (addrs rr) = {}"
    and rl_rr: "set (addrs rl) \<inter> set (addrs rr) = {}"
    using d by (auto simp: addrs_Nd)
  have okl: "fields_ok {} H l" and okrl: "fields_ok {} H rl" and okrr: "fields_ok {} H rr"
    and mn: "max' nn = max (max (high nn) (amax l)) (max' nr)"
    and mr: "max' nr = max (max (high nr) (amax rl)) (amax rr)"
    and sn: "size' nn = 1 + asize l + size' nr"
    and sr: "size' nr = 1 + asize rl + asize rr"
    using ok by (auto simp: max_of_max)
  have c_in: "c \<in> set (addrs rl)" if "left nr = Some c" for c
    using trl that by (cases rl) (auto simp: addrs_Nd)
  have c_cond: "c \<noteq> n \<and> c \<noteq> r \<and> h c \<noteq> None" if "left nr = Some c" for c
    using c_in [OF that] nrl rrl trl that by (cases rl) auto
  have p_cond: "q \<noteq> n \<and> q \<noteq> r \<and> left nr \<noteq> Some q \<and> h q \<noteq> None" if "parent nn = Some q" for q
    using p [of q] that pn c_in [of q] as by auto
  obtain ha where rot: "rb_rotate_left (h, T) n =
        Some (ha, (case parent nn of None \<Rightarrow> T\<lparr>root := Some r\<rparr> | Some _ \<Rightarrow> T), r)"
    and han: "ha n = Some (nn\<lparr>right := left nr, parent := Some r\<rparr>)"
    and har: "ha r = Some (nr\<lparr>parent := parent nn, left := Some n\<rparr>)"
    and hac: "\<And>c nc. left nr = Some c \<Longrightarrow> h c = Some nc \<Longrightarrow> ha c = Some (nc\<lparr>parent := Some n\<rparr>)"
    and hap: "\<And>q nq. parent nn = Some q \<Longrightarrow> h q = Some nq \<Longrightarrow>
        ha q = Some (if left nq = Some n then nq\<lparr>left := Some r\<rparr> else nq\<lparr>right := Some r\<rparr>)"
    and haf: "\<And>z. z \<noteq> n \<Longrightarrow> z \<noteq> r \<Longrightarrow> left nr \<noteq> Some z \<Longrightarrow> parent nn \<noteq> Some z \<Longrightarrow> ha z = h z"
    using rb_rotate_left_heap [OF hn rn hr nr_ne c_cond p_cond, of T] by blast
  have p_out: "parent nn \<noteq> Some z" if "z \<in> set (addrs ?s)" for z
    using p [of z] that pn by auto
  have fr_l: "\<forall>z \<in> set (addrs l). ha z = h z"
    using haf nl rl_ l_rl c_in p_out as by (metis Int_iff UnCI empty_iff insertCI)
  have fr_rr: "\<forall>z \<in> set (addrs rr). ha z = h z"
    using haf nrr rrr rl_rr c_in p_out as by (metis Int_iff UnCI empty_iff insertCI)
  have fr_rl: "ha z = h z" if "z \<in> set (addrs rl)" "left nr \<noteq> Some z" for z
    using haf [of z] that nrl rrl p_out [of z] as by auto
  obtain rl' where trl': "tree_at ha (Some n) (left nr) rl'" and krl: "keys rl' = keys rl"
    and okrl': "fields_ok {} H rl'" and mrl: "amax rl' = amax rl" and srl: "asize rl' = asize rl"
    using tree_at_reparent [OF trl drl, of ha "Some n"] hac fr_rl okrl by blast
  have arl': "addrs rl' = addrs rl" using krl by (simp add: addrs_keys)
  have tl_a: "tree_at ha (Some n) (left nn) l"
    using tl fr_l tree_at_frame by metis
  have trr_a: "tree_at ha (Some r) (right nr) rr"
    using trr fr_rr tree_at_frame by metis
  let ?nn1 = "nn\<lparr>right := left nr, parent := Some r\<rparr>"
  obtain nn2 where fx1: "interval_tree_fix_counts ha (Some n) = Some (ha(n \<mapsto> nn2))"
    and sl1: "same_links ?nn1 nn2"
    and tA: "tree_at (ha(n \<mapsto> nn2)) (Some r) (Some n) (Nd l n nn2 rl')"
    and m2: "max' nn2 = max (max (high nn) (amax l)) (amax rl)"
    and s2: "size' nn2 = 1 + asize l + asize rl"
    and h2: "height nn2 = 1 + max_int (aheight l) (aheight rl')"
    using fix_counts_step [of ha n ?nn1 l rl'] han tl_a trl' nl nrl arl' mrl srl
    by (auto simp: max_of_max)
  let ?hb = "ha(n \<mapsto> nn2)"
  let ?A = "Nd l n nn2 rl'"
  let ?nr1 = "nr\<lparr>parent := parent nn, left := Some n\<rparr>"
  have hbr: "?hb r = Some ?nr1" using har nr_ne by simp
  have trr_b: "tree_at ?hb (Some r) (right nr) rr"
    using trr_a nrr tree_at_frame [of rr ?hb ha] by auto
  have rA: "r \<notin> set (addrs ?A)" using nr_ne rl_ rrl arl' by (auto simp: addrs_Nd)
  obtain nr2 where fx2: "interval_tree_fix_counts ?hb (Some r) = Some (?hb(r \<mapsto> nr2))"
    and sl2: "same_links ?nr1 nr2"
    and tB: "tree_at (?hb(r \<mapsto> nr2)) (parent nn) (Some r) (Nd ?A r nr2 rr)"
    and m3: "max' nr2 = max (max (high nr) (max' nn2)) (amax rr)"
    and s3: "size' nr2 = 1 + size' nn2 + asize rr"
    and h3: "height nr2 = 1 + max_int (height nn2) (aheight rr)"
    using fix_counts_step [of ?hb r ?nr1 ?A rr] hbr tA trr_b rA rrr
    by (auto simp: max_of_max)
  let ?hc = "?hb(r \<mapsto> nr2)"
  let ?B = "Nd ?A r nr2 rr"
  have "fields_ok {} (H - {n, r}) l" "fields_ok {} (H - {n, r}) rl'" "fields_ok {} (H - {n, r}) rr"
    using okl okrl' okrr nl rl_ nrl rrl nrr rrr arl'
      fields_ok_cong [of "{}" l "{}" H "H - {n, r}"]
      fields_ok_cong [of "{}" rl' "{}" H "H - {n, r}"]
      fields_ok_cong [of "{}" rr "{}" H "H - {n, r}"]
    by auto
  then have okB: "fields_ok {} (H - {n, r}) ?B"
    using m2 s2 h2 m3 s3 h3 mrl srl sl1 sl2
    by (simp add: max_of_max same_links_def)
  have mB: "amax ?B = amax ?s"
    using m3 m2 mn mr by (simp add: max_rot)
  have sB: "asize ?B = asize ?s"
    using s3 s2 sn sr by simp
  have kB: "keys ?B = keys ?s"
    using krl sl1 sl2 by (simp add: keys_Nd same_links_def)
  have pB: "parent nr2 = pp" using sl2 pn by (simp add: same_links_def)
  have P: "\<forall>q nq. pp = Some q \<longrightarrow> h q = Some nq \<longrightarrow>
      ?hc q = Some (if left nq = Some n then nq\<lparr>left := Some r\<rparr> else nq\<lparr>right := Some r\<rparr>)"
    using hap pn p_cond by auto
  have F: "\<forall>z. z \<notin> set (addrs ?s) \<longrightarrow> pp \<noteq> Some z \<longrightarrow> ?hc z = h z"
  proof (intro allI impI)
    fix z assume z: "z \<notin> set (addrs ?s)" "pp \<noteq> Some z"
    then have "left nr \<noteq> Some z" using c_in [of z] as by auto
    then show "?hc z = h z" using haf [of z] z pn as by auto
  qed
  show ?thesis
    using rot fx1 fx2 tB okB mB sB kB pB P F pn
    by (intro exI [of _ ha] exI [of _ ?hb] exI [of _ ?hc] exI [of _ ?B] exI [of _ nr2]) simp
qed

lemma subtree_tree_at:
  "tree_at h par p t \<Longrightarrow> n \<in> set (addrs t) \<Longrightarrow> h n = Some nn \<Longrightarrow>
   tree_at h (parent nn) (Some n) (subtree_of t n)"
  by (induction t arbitrary: par p) (auto simp: addrs_Nd addrs_Tip)

lemma subtree_addrs: "set (addrs (subtree_of t n)) \<subseteq> set (addrs t)"
  by (induction t) (auto simp: addrs_Nd)

lemma subtree_distinct: "distinct (addrs t) \<Longrightarrow> distinct (addrs (subtree_of t n))"
  by (induction t) (auto simp: addrs_Nd)

lemma subtree_fields_ok: "fields_ok M H t \<Longrightarrow> fields_ok M H (subtree_of t n)"
  by (induction t) auto

lemma parent_in_tree:
  "tree_at h par (Some q) t \<Longrightarrow> distinct (addrs t) \<Longrightarrow> n \<in> set (addrs t) \<Longrightarrow> n \<noteq> q \<Longrightarrow>
   h n = Some nn \<Longrightarrow>
   \<exists>p. parent nn = Some p \<and> p \<in> set (addrs t) \<and> p \<notin> set (addrs (subtree_of t n)) \<and> h p \<noteq> None"
proof (induction t arbitrary: par q)
  case Tip
  then show ?case by simp
next
  case (Nd l b nd r)
  have q: "q = b" and hb: "h b = Some nd"
    and tl: "tree_at h (Some b) (left nd) l" and tr: "tree_at h (Some b) (right nd) r"
    using Nd.prems(1) by auto
  have dl: "distinct (addrs l)" and dr: "distinct (addrs r)"
    and bl: "b \<notin> set (addrs l)" and br: "b \<notin> set (addrs r)"
    and disj: "set (addrs l) \<inter> set (addrs r) = {}"
    using Nd.prems(2) by (auto simp: addrs_Nd)
  have nb: "n \<noteq> b" using Nd.prems(4) q by simp
  consider "n \<in> set (addrs l)" | "n \<notin> set (addrs l)" "n \<in> set (addrs r)"
    using Nd.prems(3) nb by (auto simp: addrs_Nd)
  then show ?case
  proof cases
    case 1
    then obtain ll la nla lr where l: "l = Nd ll la nla lr" by (cases l) (auto simp: addrs_def)
    have la: "left nd = Some la" "h la = Some nla" "parent nla = Some b" using tl l by auto
    show ?thesis
    proof (cases "n = la")
      case True
      then have "nn = nla" "subtree_of (Nd l b nd r) n = l"
        using la Nd.prems(5) nb 1 l by auto
      then show ?thesis using la bl hb by (auto simp: addrs_Nd)
    next
      case False
      then obtain p where "parent nn = Some p" "p \<in> set (addrs l)"
        "p \<notin> set (addrs (subtree_of l n))" "h p \<noteq> None"
        using Nd.IH(1) [of "Some b" la] tl la dl 1 Nd.prems(5) by auto
      then show ?thesis using nb 1 by (auto simp: addrs_Nd)
    qed
  next
    case 2
    then obtain rl ra nra rr where r: "r = Nd rl ra nra rr" by (cases r) (auto simp: addrs_def)
    have ra: "right nd = Some ra" "h ra = Some nra" "parent nra = Some b" using tr r by auto
    show ?thesis
    proof (cases "n = ra")
      case True
      then have "nn = nra" "subtree_of (Nd l b nd r) n = r"
        using ra Nd.prems(5) nb 2 r by auto
      then show ?thesis using ra br hb by (auto simp: addrs_Nd)
    next
      case False
      then obtain p where "parent nn = Some p" "p \<in> set (addrs r)"
        "p \<notin> set (addrs (subtree_of r n))" "h p \<noteq> None"
        using Nd.IH(2) [of "Some b" ra] tr ra dr 2 Nd.prems(5) by auto
      then show ?thesis using nb 2 by (auto simp: addrs_Nd)
    qed
  qed
qed


lemma rb_rotate_right_heap:
  assumes n: "h n = Some nn" and l: "left nn = Some l" "h l = Some nl" "l \<noteq> n"
    and c: "\<And>c. right nl = Some c \<Longrightarrow> c \<noteq> n \<and> c \<noteq> l \<and> h c \<noteq> None"
    and p: "\<And>p. parent nn = Some p \<Longrightarrow> p \<noteq> n \<and> p \<noteq> l \<and> right nl \<noteq> Some p \<and> h p \<noteq> None"
  shows "\<exists>ha. rb_rotate_right (h, T) n =
           Some (ha, (case parent nn of None \<Rightarrow> T\<lparr>root := Some l\<rparr> | Some _ \<Rightarrow> T), l) \<and>
         ha n = Some (nn\<lparr>left := right nl, parent := Some l\<rparr>) \<and>
         ha l = Some (nl\<lparr>parent := parent nn, right := Some n\<rparr>) \<and>
         (\<forall>c nc. right nl = Some c \<longrightarrow> h c = Some nc \<longrightarrow> ha c = Some (nc\<lparr>parent := Some n\<rparr>)) \<and>
         (\<forall>p np. parent nn = Some p \<longrightarrow> h p = Some np \<longrightarrow>
            ha p = Some (if left np = Some n then np\<lparr>left := Some l\<rparr> else np\<lparr>right := Some l\<rparr>)) \<and>
         (\<forall>z. z \<noteq> n \<longrightarrow> z \<noteq> l \<longrightarrow> right nl \<noteq> Some z \<longrightarrow> parent nn \<noteq> Some z \<longrightarrow> ha z = h z)"
proof (cases "right nl")
  case None
  show ?thesis
  proof (cases "parent nn")
    case pn: None
    show ?thesis
      using n l None pn
      by (simp add: rb_rotate_right_def modify_def replace_child_def)
  next
    case (Some p')
    then obtain np where "h p' = Some np" "p' \<noteq> n" "p' \<noteq> l"
      using p [of p'] by auto
    then show ?thesis
      using n l None Some
      by (auto simp: rb_rotate_right_def modify_def replace_child_def set_child_def)
  qed
next
  case (Some c')
  then obtain nc where cf: "h c' = Some nc" "c' \<noteq> n" "c' \<noteq> l"
    using c [of c'] by auto
  show ?thesis
  proof (cases "parent nn")
    case None
    show ?thesis
      using n l Some None cf
      by (auto simp: rb_rotate_right_def modify_def replace_child_def)
  next
    case pp: (Some p')
    then obtain np where "h p' = Some np" "p' \<noteq> n" "p' \<noteq> l" "p' \<noteq> c'"
      using p [of p'] Some by auto
    then show ?thesis
      using n l Some pp cf
      by (auto simp: rb_rotate_right_def modify_def replace_child_def set_child_def)
  qed
qed

lemma max_rot_right:
  "max (max hl all) (max (max hn alr) ar) = max (max hn (max (max hl all) alr)) (ar::'a::linorder)"
  by (simp add: max.assoc max.left_commute)

lemma rotate_right_subtree:
  assumes s: "tree_at h pp (Some n) (Nd (Nd ll l nl lr) n nn r)"
    and d: "distinct (addrs (Nd (Nd ll l nl lr) n nn r))"
    and ok: "fields_ok {} H (Nd (Nd ll l nl lr) n nn r)"
    and p: "\<And>p. pp = Some p \<Longrightarrow> p \<notin> set (addrs (Nd (Nd ll l nl lr) n nn r)) \<and> h p \<noteq> None"
  shows "\<exists>ha hb hc B nl'.
     rb_rotate_right (h, T) n =
       Some (ha, (case pp of None \<Rightarrow> T\<lparr>root := Some l\<rparr> | Some _ \<Rightarrow> T), l) \<and>
     interval_tree_fix_counts ha (Some n) = Some hb \<and>
     interval_tree_fix_counts hb (Some l) = Some hc \<and>
     hc l = Some nl' \<and> parent nl' = pp \<and>
     tree_at hc pp (Some l) B \<and> fields_ok {} (H - {n, l}) B \<and>
     amax B = amax (Nd (Nd ll l nl lr) n nn r) \<and> asize B = asize (Nd (Nd ll l nl lr) n nn r) \<and>
     keys B = keys (Nd (Nd ll l nl lr) n nn r) \<and>
     (\<forall>p np. pp = Some p \<longrightarrow> h p = Some np \<longrightarrow>
        hc p = Some (if left np = Some n then np\<lparr>left := Some l\<rparr> else np\<lparr>right := Some l\<rparr>)) \<and>
     (\<forall>z. z \<notin> set (addrs (Nd (Nd ll l nl lr) n nn r)) \<longrightarrow> pp \<noteq> Some z \<longrightarrow> hc z = h z)"
proof -
  let ?s = "Nd (Nd ll l nl lr) n nn r"
  have hn: "h n = Some nn" and pn: "parent nn = pp" and tr: "tree_at h (Some n) (right nn) r"
    and ln: "left nn = Some l" and hl: "h l = Some nl" and pl: "parent nl = Some n"
    and tll: "tree_at h (Some l) (left nl) ll" and tlr: "tree_at h (Some l) (right nl) lr"
    using s by auto
  have as: "set (addrs ?s) = insert n (insert l (set (addrs ll) \<union> set (addrs lr) \<union> set (addrs r)))"
    by (auto simp: addrs_Nd)
  have nl_ne: "l \<noteq> n"
    and nll: "n \<notin> set (addrs ll)" and nlr: "n \<notin> set (addrs lr)" and nr: "n \<notin> set (addrs r)"
    and lll: "l \<notin> set (addrs ll)" and llr: "l \<notin> set (addrs lr)" and lr_: "l \<notin> set (addrs r)"
    and dll: "distinct (addrs ll)" and dlr: "distinct (addrs lr)" and dr: "distinct (addrs r)"
    and ll_lr: "set (addrs ll) \<inter> set (addrs lr) = {}" and ll_r: "set (addrs ll) \<inter> set (addrs r) = {}"
    and lr_r: "set (addrs lr) \<inter> set (addrs r) = {}"
    using d by (auto simp: addrs_Nd)
  have okll: "fields_ok {} H ll" and oklr: "fields_ok {} H lr" and okr: "fields_ok {} H r"
    and mn: "max' nn = max (max (high nn) (max' nl)) (amax r)"
    and ml: "max' nl = max (max (high nl) (amax ll)) (amax lr)"
    and sn: "size' nn = 1 + size' nl + asize r"
    and sl: "size' nl = 1 + asize ll + asize lr"
    using ok by (auto simp: max_of_max)
  have c_in: "c \<in> set (addrs lr)" if "right nl = Some c" for c
    using tlr that by (cases lr) (auto simp: addrs_Nd)
  have c_cond: "c \<noteq> n \<and> c \<noteq> l \<and> h c \<noteq> None" if "right nl = Some c" for c
    using c_in [OF that] nlr llr tlr that by (cases lr) auto
  have p_cond: "q \<noteq> n \<and> q \<noteq> l \<and> right nl \<noteq> Some q \<and> h q \<noteq> None" if "parent nn = Some q" for q
    using p [of q] that pn c_in [of q] as by auto
  obtain ha where rot: "rb_rotate_right (h, T) n =
        Some (ha, (case parent nn of None \<Rightarrow> T\<lparr>root := Some l\<rparr> | Some _ \<Rightarrow> T), l)"
    and han: "ha n = Some (nn\<lparr>left := right nl, parent := Some l\<rparr>)"
    and hal: "ha l = Some (nl\<lparr>parent := parent nn, right := Some n\<rparr>)"
    and hac: "\<And>c nc. right nl = Some c \<Longrightarrow> h c = Some nc \<Longrightarrow> ha c = Some (nc\<lparr>parent := Some n\<rparr>)"
    and hap: "\<And>q nq. parent nn = Some q \<Longrightarrow> h q = Some nq \<Longrightarrow>
        ha q = Some (if left nq = Some n then nq\<lparr>left := Some l\<rparr> else nq\<lparr>right := Some l\<rparr>)"
    and haf: "\<And>z. z \<noteq> n \<Longrightarrow> z \<noteq> l \<Longrightarrow> right nl \<noteq> Some z \<Longrightarrow> parent nn \<noteq> Some z \<Longrightarrow> ha z = h z"
    using rb_rotate_right_heap [OF hn ln hl nl_ne c_cond p_cond, of T] by blast
  have p_out: "parent nn \<noteq> Some z" if "z \<in> set (addrs ?s)" for z
    using p [of z] that pn by auto
  have fr_ll: "\<forall>z \<in> set (addrs ll). ha z = h z"
    using haf nll lll ll_lr c_in p_out as by (metis Int_iff UnCI empty_iff insertCI)
  have fr_r: "\<forall>z \<in> set (addrs r). ha z = h z"
    using haf nr lr_ lr_r c_in p_out as by (metis Int_iff UnCI empty_iff insertCI)
  have fr_lr: "ha z = h z" if "z \<in> set (addrs lr)" "right nl \<noteq> Some z" for z
    using haf [of z] that nlr llr p_out [of z] as by auto
  obtain lr' where tlr': "tree_at ha (Some n) (right nl) lr'" and klr: "keys lr' = keys lr"
    and oklr': "fields_ok {} H lr'" and mlr: "amax lr' = amax lr" and slr: "asize lr' = asize lr"
    using tree_at_reparent [OF tlr dlr, of ha "Some n"] hac fr_lr oklr by blast
  have alr': "addrs lr' = addrs lr" using klr by (simp add: addrs_keys)
  have tr_a: "tree_at ha (Some n) (right nn) r"
    using tr fr_r tree_at_frame by metis
  have tll_a: "tree_at ha (Some l) (left nl) ll"
    using tll fr_ll tree_at_frame by metis
  let ?nn1 = "nn\<lparr>left := right nl, parent := Some l\<rparr>"
  obtain nn2 where fx1: "interval_tree_fix_counts ha (Some n) = Some (ha(n \<mapsto> nn2))"
    and sl1: "same_links ?nn1 nn2"
    and tA: "tree_at (ha(n \<mapsto> nn2)) (Some l) (Some n) (Nd lr' n nn2 r)"
    and m2: "max' nn2 = max (max (high nn) (amax lr)) (amax r)"
    and s2: "size' nn2 = 1 + asize lr + asize r"
    and h2: "height nn2 = 1 + max_int (aheight lr') (aheight r)"
    using fix_counts_step [of ha n ?nn1 lr' r] han tr_a tlr' nr nlr alr' mlr slr
    by (auto simp: max_of_max)
  let ?hb = "ha(n \<mapsto> nn2)"
  let ?A = "Nd lr' n nn2 r"
  let ?nl1 = "nl\<lparr>parent := parent nn, right := Some n\<rparr>"
  have hbl: "?hb l = Some ?nl1" using hal nl_ne by simp
  have tll_b: "tree_at ?hb (Some l) (left nl) ll"
    using tll_a nll tree_at_frame [of ll ?hb ha] by auto
  have lA: "l \<notin> set (addrs ?A)" using nl_ne lr_ llr alr' by (auto simp: addrs_Nd)
  obtain nl2 where fx2: "interval_tree_fix_counts ?hb (Some l) = Some (?hb(l \<mapsto> nl2))"
    and sl2: "same_links ?nl1 nl2"
    and tB: "tree_at (?hb(l \<mapsto> nl2)) (parent nn) (Some l) (Nd ll l nl2 ?A)"
    and m3: "max' nl2 = max (max (high nl) (amax ll)) (max' nn2)"
    and s3: "size' nl2 = 1 + asize ll + size' nn2"
    and h3: "height nl2 = 1 + max_int (aheight ll) (height nn2)"
    using fix_counts_step [of ?hb l ?nl1 ll ?A] hbl tA tll_b lA lll
    by (auto simp: max_of_max)
  let ?hc = "?hb(l \<mapsto> nl2)"
  let ?B = "Nd ll l nl2 ?A"
  have "fields_ok {} (H - {n, l}) ll" "fields_ok {} (H - {n, l}) lr'" "fields_ok {} (H - {n, l}) r"
    using okll oklr' okr nll lll nlr llr nr lr_ alr'
      fields_ok_cong [of "{}" ll "{}" H "H - {n, l}"]
      fields_ok_cong [of "{}" lr' "{}" H "H - {n, l}"]
      fields_ok_cong [of "{}" r "{}" H "H - {n, l}"]
    by auto
  then have okB: "fields_ok {} (H - {n, l}) ?B"
    using m2 s2 h2 m3 s3 h3 mlr slr sl1 sl2
    by (simp add: max_of_max same_links_def)
  have mB: "amax ?B = amax ?s"
    using m3 m2 mn ml by (simp add: max_rot_right)
  have sB: "asize ?B = asize ?s"
    using s3 s2 sn sl by simp
  have kB: "keys ?B = keys ?s"
    using klr sl1 sl2 by (simp add: keys_Nd same_links_def)
  have pB: "parent nl2 = pp" using sl2 pn by (simp add: same_links_def)
  have P: "\<forall>q nq. pp = Some q \<longrightarrow> h q = Some nq \<longrightarrow>
      ?hc q = Some (if left nq = Some n then nq\<lparr>left := Some l\<rparr> else nq\<lparr>right := Some l\<rparr>)"
    using hap pn p_cond by auto
  have F: "\<forall>z. z \<notin> set (addrs ?s) \<longrightarrow> pp \<noteq> Some z \<longrightarrow> ?hc z = h z"
  proof (intro allI impI)
    fix z assume z: "z \<notin> set (addrs ?s)" "pp \<noteq> Some z"
    then have "right nl \<noteq> Some z" using c_in [of z] as by auto
    then show "?hc z = h z" using haf [of z] z pn as by auto
  qed
  show ?thesis
    using rot fx1 fx2 tB okB mB sB kB pB P F pn
    by (intro exI [of _ ha] exI [of _ ?hb] exI [of _ ?hc] exI [of _ ?B] exI [of _ nl2]) simp
qed

lemma subtree_mem: "n \<in> set (addrs t) \<Longrightarrow> n \<in> set (addrs (subtree_of t n))"
  by (induction t) (auto simp: addrs_Nd addrs_Tip)

text \<open>
  The third step of the rotation hook, seen from the whole tree. \<open>hc\<close> is the store
  after the rotation and the first two steps: the subtree \<open>S\<close> that \<open>n\<close> headed has
  become \<open>B\<close>, headed by \<open>y\<close>, with the same nodes, maximum and size, and the parent
  \<open>p\<close> of \<open>n\<close> points to \<open>y\<close> instead. Recomputing \<open>p\<close> gives a tree whose
  \<open>max\<close> and \<open>size\<close> fields are consistent everywhere; the height of the subtree of
  \<open>p\<close> may have changed, which the parent of \<open>p\<close> does not see.
\<close>

lemma fix_parent_above:
  assumes n: "h n = Some nn" "parent nn = Some p" and np: "h p = Some np"
    and fr: "\<forall>z. z \<notin> set (addrs S) \<longrightarrow> z \<noteq> p \<longrightarrow> hc z = h z"
    and hp: "hc p = Some (if left np = Some n then np\<lparr>left := Some y\<rparr> else np\<lparr>right := Some y\<rparr>)"
    and B: "tree_at hc (Some p) (Some y) B" "fields_ok {} (H - {n, y}) B"
      "amax B = amax S" "asize B = asize S" "keys B = keys S"
    and y: "y \<in> set (addrs S)"
  shows "tree_at h par (Some q) t \<Longrightarrow> distinct (addrs t) \<Longrightarrow> fields_ok {} H t \<Longrightarrow>
    n \<in> set (addrs t) \<Longrightarrow> n \<noteq> q \<Longrightarrow> subtree_of t n = S \<Longrightarrow>
    \<forall>g. par = Some g \<longrightarrow> g \<notin> set (addrs t) \<Longrightarrow>
    \<exists>h' t'. interval_tree_fix_counts hc (Some p) = Some h' \<and> tree_at h' par (Some q) t' \<and>
      keys t' = keys t \<and> amax t' = amax t \<and> asize t' = asize t \<and>
      (q \<noteq> p \<longrightarrow> aheight t' = aheight t) \<and>
      fields_ok {} (H - {n, y, p} \<union> set_option (parent np)) t' \<and>
      (\<forall>z. z \<notin> set (addrs S) \<longrightarrow> z \<noteq> p \<longrightarrow> h' z = h z)"
proof (induction t arbitrary: par q)
  case Tip
  then show ?case by simp
next
  case (Nd l b nd r)
  let ?E = "H - {n, y, p} \<union> set_option (parent np)"
  have q: "q = b" and hb: "h b = Some nd" and par: "parent nd = par"
    and tl: "tree_at h (Some b) (left nd) l" and tr: "tree_at h (Some b) (right nd) r"
    using Nd.prems(1) by auto
  have dl: "distinct (addrs l)" and dr: "distinct (addrs r)"
    and bl: "b \<notin> set (addrs l)" and br: "b \<notin> set (addrs r)"
    and disj: "set (addrs l) \<inter> set (addrs r) = {}"
    using Nd.prems(2) by (auto simp: addrs_Nd)
  have okl: "fields_ok {} H l" and okr: "fields_ok {} H r"
    and mb: "max' nd = max (max (high nd) (amax l)) (amax r)"
    and sb: "size' nd = 1 + asize l + asize r"
    and hgt: "b \<notin> H \<longrightarrow> height nd = 1 + max_int (aheight l) (aheight r)"
    using Nd.prems(3) by (auto simp: max_of_max)
  have par_out: "\<forall>g. par = Some g \<longrightarrow> g \<noteq> b \<and> g \<notin> set (addrs l) \<and> g \<notin> set (addrs r)"
    using Nd.prems(7) by (auto simp: addrs_Nd)
  have nb: "n \<noteq> b" using Nd.prems(5) q by simp
  have aB: "addrs B = addrs S" using B(5) by (simp add: addrs_keys)
  have nS: "n \<in> set (addrs S)" using Nd.prems(4,6) subtree_mem by metis
  text \<open>The node \<open>b\<close> is the parent of \<open>n\<close>: \<open>c\<close> is the subtree of \<open>n\<close>, \<open>u\<close> the other one.\<close>
  have at_parent: ?case
    if pb: "p = b" and S: "S = c" and cs: "c = l \<and> u = r \<or> c = r \<and> u = l"
      and ln: "left nd = Some n \<longleftrightarrow> c = l"
      and rn: "left nd \<noteq> Some n \<longrightarrow> right nd = Some n"
    for c u
  proof -
    let ?nd1 = "if left nd = Some n then nd\<lparr>left := Some y\<rparr> else nd\<lparr>right := Some y\<rparr>"
    have npd: "np = nd" using np hb pb by simp
    have hcb: "hc b = Some ?nd1" using hp npd pb by simp
    have bS: "b \<notin> set (addrs S)" using S cs bl br by auto
    have oS: "set (addrs u) \<inter> set (addrs S) = {}" using S cs disj by auto
    have bo: "b \<notin> set (addrs u)" using cs bl br by auto
    have to: "tree_at h (Some b) (if c = l then right nd else left nd) u"
      using cs tl tr by auto
    have "\<forall>z \<in> set (addrs u). hc z = h z" using fr oS bo pb by auto
    then have to': "tree_at hc (Some b) (if c = l then right nd else left nd) u"
      using to tree_at_frame by metis
    have oko: "fields_ok {} H u" using cs okl okr by auto
    have bB: "b \<notin> set (addrs B)" using aB bS by simp
    have gS: "\<forall>g. parent np = Some g \<longrightarrow> g \<notin> set (addrs S) \<and> g \<notin> set (addrs u)"
      using par_out npd par S cs by auto
    have fB: "fields_ok {} ?E B"
      using B(2) fields_ok_cong [of "{}" B "{}" "H - {n, y}" ?E] aB bS pb gS
      by (cases "parent np") auto
    have fu: "fields_ok {} ?E u"
      using oko fields_ok_cong [of "{}" u "{}" H ?E] oS nS y bo pb gS
      by (cases "parent np") auto
    show ?thesis
    proof (cases "c = l")
      case True
      then have u: "u = r" and lft: "left nd = Some n" using cs ln disj by auto
      obtain nd2 where fx: "interval_tree_fix_counts hc (Some b) = Some (hc(b \<mapsto> nd2))"
        and sl: "same_links ?nd1 nd2"
        and t': "tree_at (hc(b \<mapsto> nd2)) (parent ?nd1) (Some b) (Nd B b nd2 r)"
        and m2: "max' nd2 = max (max (high nd) (amax B)) (amax r)"
        and s2: "size' nd2 = 1 + asize B + asize r"
        and h2: "height nd2 = 1 + max_int (aheight B) (aheight r)"
        using fix_counts_step [of hc b ?nd1 B r] hcb B(1) to' True u lft pb bB bo
        by (auto simp: max_of_max)
      have f0: "fields_ok {} ?E (Nd B b nd2 r)"
        using fB fu [unfolded u] m2 s2 h2 sl lft by (simp add: max_of_max same_links_def)
      show ?thesis
      proof (intro exI conjI)
        show "interval_tree_fix_counts hc (Some p) = Some (hc(b \<mapsto> nd2))" using fx pb by simp
        show "tree_at (hc(b \<mapsto> nd2)) par (Some q) (Nd B b nd2 r)" using t' par lft q by simp
        show "keys (Nd B b nd2 r) = keys (Nd l b nd r)"
          using B(5) S True sl lft by (simp add: keys_Nd same_links_def)
        show "amax (Nd B b nd2 r) = amax (Nd l b nd r)"
          using m2 mb B(3) S True by simp
        show "asize (Nd B b nd2 r) = asize (Nd l b nd r)"
          using s2 sb B(4) S True by simp
        show "q \<noteq> p \<longrightarrow> aheight (Nd B b nd2 r) = aheight (Nd l b nd r)" using pb q by simp
        show "fields_ok {} ?E (Nd B b nd2 r)" by (rule f0)
        show "\<forall>z. z \<notin> set (addrs S) \<longrightarrow> z \<noteq> p \<longrightarrow> (hc(b \<mapsto> nd2)) z = h z"
          using fr pb by simp
      qed
    next
      case False
      then have c: "c = r" and u: "u = l" and lft: "left nd \<noteq> Some n" and rgt: "right nd = Some n"
        using cs ln rn by auto
      obtain nd2 where fx: "interval_tree_fix_counts hc (Some b) = Some (hc(b \<mapsto> nd2))"
        and sl: "same_links ?nd1 nd2"
        and t': "tree_at (hc(b \<mapsto> nd2)) (parent ?nd1) (Some b) (Nd l b nd2 B)"
        and m2: "max' nd2 = max (max (high nd) (amax l)) (amax B)"
        and s2: "size' nd2 = 1 + asize l + asize B"
        and h2: "height nd2 = 1 + max_int (aheight l) (aheight B)"
        using fix_counts_step [of hc b ?nd1 l B] hcb B(1) to' False u lft pb bB bo
        by (auto simp: max_of_max)
      have f0: "fields_ok {} ?E (Nd l b nd2 B)"
        using fB fu [unfolded u] m2 s2 h2 sl lft by (simp add: max_of_max same_links_def)
      show ?thesis
      proof (intro exI conjI)
        show "interval_tree_fix_counts hc (Some p) = Some (hc(b \<mapsto> nd2))" using fx pb by simp
        show "tree_at (hc(b \<mapsto> nd2)) par (Some q) (Nd l b nd2 B)" using t' par lft q by simp
        show "keys (Nd l b nd2 B) = keys (Nd l b nd r)"
          using B(5) S c sl lft by (simp add: keys_Nd same_links_def)
        show "amax (Nd l b nd2 B) = amax (Nd l b nd r)"
          using m2 mb B(3) S c by simp
        show "asize (Nd l b nd2 B) = asize (Nd l b nd r)"
          using s2 sb B(4) S c by simp
        show "q \<noteq> p \<longrightarrow> aheight (Nd l b nd2 B) = aheight (Nd l b nd r)" using pb q by simp
        show "fields_ok {} ?E (Nd l b nd2 B)" by (rule f0)
        show "\<forall>z. z \<notin> set (addrs S) \<longrightarrow> z \<noteq> p \<longrightarrow> (hc(b \<mapsto> nd2)) z = h z"
          using fr pb by simp
      qed
    qed
  qed
  text \<open>The node \<open>n\<close> lies deeper, in the subtree \<open>c\<close> headed by \<open>ca\<close>, and not at its top.\<close>
  have below: ?case
    if IH: "\<exists>h' c'. interval_tree_fix_counts hc (Some p) = Some h' \<and>
        tree_at h' (Some b) (Some ca) c' \<and>
        keys c' = keys c \<and> amax c' = amax c \<and> asize c' = asize c \<and>
        (ca \<noteq> p \<longrightarrow> aheight c' = aheight c) \<and>
        fields_ok {} ?E c' \<and>
        (\<forall>z. z \<notin> set (addrs S) \<longrightarrow> z \<noteq> p \<longrightarrow> h' z = h z)"
      and cs: "c = l \<and> u = r \<or> c = r \<and> u = l" and pc: "p \<in> set (addrs c)"
      and Sc: "set (addrs S) \<subseteq> set (addrs c)"
      and ca: "(if c = l then left nd else right nd) = Some ca"
      and gp: "ca = p \<longrightarrow> parent np = Some b"
      and gc: "ca \<noteq> p \<longrightarrow> (\<forall>g. parent np = Some g \<longrightarrow> g \<in> set (addrs c))"
    for c u ca
  proof -
    obtain h' c' where fx: "interval_tree_fix_counts hc (Some p) = Some h'"
      and tc: "tree_at h' (Some b) (Some ca) c'"
      and kc: "keys c' = keys c" and mc: "amax c' = amax c" and sc: "asize c' = asize c"
      and hc': "ca \<noteq> p \<longrightarrow> aheight c' = aheight c"
      and fc: "fields_ok {} ?E c'"
      and fr': "\<forall>z. z \<notin> set (addrs S) \<longrightarrow> z \<noteq> p \<longrightarrow> h' z = h z"
      using IH by blast
    have ac: "addrs c' = addrs c" using kc by (simp add: addrs_keys)
    have bc: "b \<notin> set (addrs c)" and bo: "b \<notin> set (addrs u)"
      and co: "set (addrs c) \<inter> set (addrs u) = {}"
      using cs bl br disj by auto
    have pb: "p \<noteq> b" using pc bc by auto
    have hb': "h' b = Some nd" using fr' Sc bc pb hb by auto
    have "\<forall>z \<in> set (addrs u). h' z = h z" using fr' Sc co pc by auto
    moreover have "tree_at h (Some b) (if c = l then right nd else left nd) u"
      using cs tl tr by auto
    ultimately have to: "tree_at h' (Some b) (if c = l then right nd else left nd) u"
      using tree_at_frame by metis
    have oko: "fields_ok {} H u" using cs okl okr by auto
    have gu: "\<forall>g. parent np = Some g \<longrightarrow> g \<notin> set (addrs u)"
      using gp gc bo co by (cases "ca = p") auto
    have fu: "fields_ok {} ?E u"
      using oko fields_ok_cong [of "{}" u "{}" H ?E] Sc co nS y pc gu
      by (cases "parent np") auto
    have hb_eq: "b \<notin> ?E \<longrightarrow> height nd = 1 + max_int (aheight l) (aheight r) \<and> aheight c' = aheight c"
    proof
      assume bE: "b \<notin> ?E"
      then have "ca \<noteq> p" using gp by (cases "parent np") auto
      moreover have "b \<notin> H" using bE pb nS y Sc bc by auto
      ultimately show "height nd = 1 + max_int (aheight l) (aheight r) \<and> aheight c' = aheight c"
        using hgt hc' by simp
    qed
    show ?thesis
    proof (cases "c = l")
      case True
      then have u: "u = r" using cs disj pc by auto
      show ?thesis
      proof (intro exI conjI)
        show "interval_tree_fix_counts hc (Some p) = Some h'" by (rule fx)
        show "tree_at h' par (Some q) (Nd c' b nd r)"
          using hb' par tc to True u q ca by simp
        show "keys (Nd c' b nd r) = keys (Nd l b nd r)"
          using kc True by (simp add: keys_Nd)
        show "amax (Nd c' b nd r) = amax (Nd l b nd r)" by simp
        show "asize (Nd c' b nd r) = asize (Nd l b nd r)" by simp
        show "q \<noteq> p \<longrightarrow> aheight (Nd c' b nd r) = aheight (Nd l b nd r)" by simp
        show "fields_ok {} ?E (Nd c' b nd r)"
          using fc fu [unfolded u] hb_eq mb sb mc sc True u by (simp add: max_of_max)
        show "\<forall>z. z \<notin> set (addrs S) \<longrightarrow> z \<noteq> p \<longrightarrow> h' z = h z" by (rule fr')
      qed
    next
      case False
      then have c: "c = r" and u: "u = l" using cs by auto
      show ?thesis
      proof (intro exI conjI)
        show "interval_tree_fix_counts hc (Some p) = Some h'" by (rule fx)
        show "tree_at h' par (Some q) (Nd l b nd c')"
          using hb' par tc to False u q ca by simp
        show "keys (Nd l b nd c') = keys (Nd l b nd r)"
          using kc c by (simp add: keys_Nd)
        show "amax (Nd l b nd c') = amax (Nd l b nd r)" by simp
        show "asize (Nd l b nd c') = asize (Nd l b nd r)" by simp
        show "q \<noteq> p \<longrightarrow> aheight (Nd l b nd c') = aheight (Nd l b nd r)" by simp
        show "fields_ok {} ?E (Nd l b nd c')"
          using fc fu [unfolded u] hb_eq mb sb mc sc c u by (auto simp: max_of_max)
        show "\<forall>z. z \<notin> set (addrs S) \<longrightarrow> z \<noteq> p \<longrightarrow> h' z = h z" by (rule fr')
      qed
    qed
  qed
  consider "n \<in> set (addrs l)" | "n \<notin> set (addrs l)" "n \<in> set (addrs r)"
    using Nd.prems(4) nb by (auto simp: addrs_Nd)
  then show ?case
  proof cases
    case 1
    then obtain ll la nla lr where l: "l = Nd ll la nla lr" by (cases l) (auto simp: addrs_def)
    have la: "left nd = Some la" "h la = Some nla" "parent nla = Some b" using tl l by auto
    have Sl: "subtree_of l n = S" using Nd.prems(6) nb 1 by simp
    show ?thesis
    proof (cases "n = la")
      case True
      then have "p = b" "S = l" using la n Sl l by auto
      then show ?thesis using at_parent [of l r] True la by simp
    next
      case False
      obtain p' where "parent nn = Some p'" "p' \<in> set (addrs l)"
        using parent_in_tree [of h "Some b" la l n nn] tl la dl 1 False n(1) by auto
      then have pl: "p \<in> set (addrs l)" using n(2) by simp
      have Ssub: "set (addrs S) \<subseteq> set (addrs l)" using Sl subtree_addrs by metis
      have gp: "la = p \<longrightarrow> parent np = Some b" using la np by auto
      have gc: "la \<noteq> p \<longrightarrow> (\<forall>g. parent np = Some g \<longrightarrow> g \<in> set (addrs l))"
        using parent_in_tree [of h "Some b" la l p np] tl la dl pl np by auto
      have "\<exists>h' c'. interval_tree_fix_counts hc (Some p) = Some h' \<and>
          tree_at h' (Some b) (Some la) c' \<and>
          keys c' = keys l \<and> amax c' = amax l \<and> asize c' = asize l \<and>
          (la \<noteq> p \<longrightarrow> aheight c' = aheight l) \<and>
          fields_ok {} ?E c' \<and>
          (\<forall>z. z \<notin> set (addrs S) \<longrightarrow> z \<noteq> p \<longrightarrow> h' z = h z)"
        using Nd.IH(1) [of "Some b" la] tl la dl okl 1 False Sl bl by simp
      then show ?thesis
        using below [of la l r] la pl Ssub gp gc by simp
    qed
  next
    case 2
    then obtain rl ra nra rr where r: "r = Nd rl ra nra rr" by (cases r) (auto simp: addrs_def)
    have ra: "right nd = Some ra" "h ra = Some nra" "parent nra = Some b" using tr r by auto
    have Sr: "subtree_of r n = S" using Nd.prems(6) nb 2 by simp
    have nl: "left nd \<noteq> Some n"
    proof
      assume "left nd = Some n"
      then have "n \<in> set (addrs l)" using tl by (cases l) (auto simp: addrs_Nd)
      then show False using 2 by simp
    qed
    have rl_ne: "r \<noteq> l" using 2 by auto
    show ?thesis
    proof (cases "n = ra")
      case True
      then have "p = b" "S = r" using ra n Sr r by auto
      then show ?thesis using at_parent [of r l] True ra nl rl_ne by simp
    next
      case False
      obtain p' where "parent nn = Some p'" "p' \<in> set (addrs r)"
        using parent_in_tree [of h "Some b" ra r n nn] tr ra dr 2 False n(1) by auto
      then have pr: "p \<in> set (addrs r)" using n(2) by simp
      have Ssub: "set (addrs S) \<subseteq> set (addrs r)" using Sr subtree_addrs by metis
      have gp: "ra = p \<longrightarrow> parent np = Some b" using ra np by auto
      have gc: "ra \<noteq> p \<longrightarrow> (\<forall>g. parent np = Some g \<longrightarrow> g \<in> set (addrs r))"
        using parent_in_tree [of h "Some b" ra r p np] tr ra dr pr np by auto
      have "\<exists>h' c'. interval_tree_fix_counts hc (Some p) = Some h' \<and>
          tree_at h' (Some b) (Some ra) c' \<and>
          keys c' = keys r \<and> amax c' = amax r \<and> asize c' = asize r \<and>
          (ra \<noteq> p \<longrightarrow> aheight c' = aheight r) \<and>
          fields_ok {} ?E c' \<and>
          (\<forall>z. z \<notin> set (addrs S) \<longrightarrow> z \<noteq> p \<longrightarrow> h' z = h z)"
        using Nd.IH(2) [of "Some b" ra] tr ra dr okr 2 False Sr br by simp
      then show ?thesis
        using below [of ra r l] ra pr Ssub gp gc rl_ne by simp
    qed
  qed
qed

lemma subtree_root: "subtree_of (Nd l n nd r) n = Nd l n nd r"
  by simp

lemma rotate_left_fixup_tree:
  assumes t: "tree_at h None (root T) t" and d: "distinct (addrs t)" and ok: "fields_ok {} H t"
    and n: "n \<in> set (addrs t)" "h n = Some nn" "right nn = Some r"
  shows "\<exists>h' T' t'. rotate_left_fixup (h, T) n = Some (h', T') \<and>
           tree_at h' None (root T') t' \<and> keys t' = keys t \<and>
           fields_ok {} (stale_after h H n r) t'"
proof -
  obtain q where q: "root T = Some q"
    using t n(1) by (cases t) (auto simp: addrs_Tip)
  let ?S = "subtree_of t n"
  have tS: "tree_at h (parent nn) (Some n) ?S"
    using subtree_tree_at [OF t n(1,2)] .
  then obtain l sr where S1: "?S = Nd l n nn sr" and tsr: "tree_at h (Some n) (right nn) sr"
    using n(2) by (cases ?S) auto
  then obtain rl nr rr where S: "?S = Nd l n nn (Nd rl r nr rr)"
    using n(3) by (cases sr) auto
  have dS: "distinct (addrs ?S)" using d by (rule subtree_distinct)
  have okS: "fields_ok {} H ?S" using ok by (rule subtree_fields_ok)
  have yS: "r \<in> set (addrs ?S)" unfolding S by (simp add: addrs_Nd)
  show ?thesis
  proof (cases "n = q")
    case True
    then have pn: "parent nn = None" and St: "?S = t"
      using t q n(2) by (cases t; auto)+
    obtain ha hb hc B nr' where
      rot: "rb_rotate_left (h, T) n = Some (ha, T\<lparr>root := Some r\<rparr>, r)"
      and f1: "interval_tree_fix_counts ha (Some n) = Some hb"
      and f2: "interval_tree_fix_counts hb (Some r) = Some hc"
      and hr: "hc r = Some nr'" "parent nr' = None"
      and B: "tree_at hc None (Some r) B" "fields_ok {} (H - {n, r}) B" "keys B = keys ?S"
      using rotate_left_subtree [of h "parent nn" n l nn rl r nr rr H T] tS dS okS pn
      unfolding S by (auto simp del: fields_ok.simps)
    have "rotate_left_fixup (h, T) n = Some (hc, T\<lparr>root := Some r\<rparr>)"
      using rot f1 f2 hr
      by (simp add: rotate_left_fixup_def interval_tree_augment_rotate_def
          interval_tree_fix_counts_def)
    then show ?thesis
      using B pn St n(2) by (intro exI [of _ hc] exI [of _ "T\<lparr>root := Some r\<rparr>"] exI [of _ B])
        (simp add: stale_after_def)
  next
    case False
    obtain p where p: "parent nn = Some p" "p \<in> set (addrs t)" "p \<notin> set (addrs ?S)" "h p \<noteq> None"
      using parent_in_tree [OF t [unfolded q] d n(1) False n(2)] by blast
    then obtain np where np: "h p = Some np" by auto
    obtain ha hb hc B nr' where
      rot: "rb_rotate_left (h, T) n = Some (ha, T, r)"
      and f1: "interval_tree_fix_counts ha (Some n) = Some hb"
      and f2: "interval_tree_fix_counts hb (Some r) = Some hc"
      and hr: "hc r = Some nr'" "parent nr' = Some p"
      and B: "tree_at hc (Some p) (Some r) B" "fields_ok {} (H - {n, r}) B" "amax B = amax ?S" "asize B = asize ?S"
        "keys B = keys ?S"
      and hp: "\<forall>np. h p = Some np \<longrightarrow>
          hc p = Some (if left np = Some n then np\<lparr>left := Some r\<rparr> else np\<lparr>right := Some r\<rparr>)"
      and fr: "\<forall>z. z \<notin> set (addrs ?S) \<longrightarrow> z \<noteq> p \<longrightarrow> hc z = h z"
      using rotate_left_subtree [of h "parent nn" n l nn rl r nr rr H T] tS dS okS p
      unfolding S by (auto simp del: fields_ok.simps)
    have hp': "hc p = Some (if left np = Some n then np\<lparr>left := Some r\<rparr> else np\<lparr>right := Some r\<rparr>)"
      using hp np by simp
    obtain h' t' where f3: "interval_tree_fix_counts hc (Some p) = Some h'"
      and t': "tree_at h' None (Some q) t'" "keys t' = keys t"
        "fields_ok {} (H - {n, r, p} \<union> set_option (parent np)) t'"
      using fix_parent_above [OF n(2) p(1) np fr hp' B yS t [unfolded q] d ok n(1) False refl]
      by blast
    have "rotate_left_fixup (h, T) n = Some (h', T)"
      using rot f1 f2 hr f3
      by (simp add: rotate_left_fixup_def interval_tree_augment_rotate_def)
    then show ?thesis
      using t' p(1) q n(2) np
      by (intro exI [of _ h'] exI [of _ T] exI [of _ t']) (simp add: stale_after_def)
  qed
qed

lemma rotate_right_fixup_tree:
  assumes t: "tree_at h None (root T) t" and d: "distinct (addrs t)" and ok: "fields_ok {} H t"
    and n: "n \<in> set (addrs t)" "h n = Some nn" "left nn = Some l"
  shows "\<exists>h' T' t'. rotate_right_fixup (h, T) n = Some (h', T') \<and>
           tree_at h' None (root T') t' \<and> keys t' = keys t \<and>
           fields_ok {} (stale_after h H n l) t'"
proof -
  obtain q where q: "root T = Some q"
    using t n(1) by (cases t) (auto simp: addrs_Tip)
  let ?S = "subtree_of t n"
  have tS: "tree_at h (parent nn) (Some n) ?S"
    using subtree_tree_at [OF t n(1,2)] .
  then obtain sl r where S1: "?S = Nd sl n nn r" and tsl: "tree_at h (Some n) (left nn) sl"
    using n(2) by (cases ?S) auto
  then obtain ll nl lr where S: "?S = Nd (Nd ll l nl lr) n nn r"
    using n(3) by (cases sl) auto
  have dS: "distinct (addrs ?S)" using d by (rule subtree_distinct)
  have okS: "fields_ok {} H ?S" using ok by (rule subtree_fields_ok)
  have yS: "l \<in> set (addrs ?S)" unfolding S by (simp add: addrs_Nd)
  show ?thesis
  proof (cases "n = q")
    case True
    then have pn: "parent nn = None" and St: "?S = t"
      using t q n(2) by (cases t; auto)+
    obtain ha hb hc B nl' where
      rot: "rb_rotate_right (h, T) n = Some (ha, T\<lparr>root := Some l\<rparr>, l)"
      and f1: "interval_tree_fix_counts ha (Some n) = Some hb"
      and f2: "interval_tree_fix_counts hb (Some l) = Some hc"
      and hr: "hc l = Some nl'" "parent nl' = None"
      and B: "tree_at hc None (Some l) B" "fields_ok {} (H - {n, l}) B" "keys B = keys ?S"
      using rotate_right_subtree [of h "parent nn" n ll l nl lr nn r H T] tS dS okS pn
      unfolding S by (auto simp del: fields_ok.simps)
    have "rotate_right_fixup (h, T) n = Some (hc, T\<lparr>root := Some l\<rparr>)"
      using rot f1 f2 hr
      by (simp add: rotate_right_fixup_def interval_tree_augment_rotate_def
          interval_tree_fix_counts_def)
    then show ?thesis
      using B pn St n(2) by (intro exI [of _ hc] exI [of _ "T\<lparr>root := Some l\<rparr>"] exI [of _ B])
        (simp add: stale_after_def)
  next
    case False
    obtain p where p: "parent nn = Some p" "p \<in> set (addrs t)" "p \<notin> set (addrs ?S)" "h p \<noteq> None"
      using parent_in_tree [OF t [unfolded q] d n(1) False n(2)] by blast
    then obtain np where np: "h p = Some np" by auto
    obtain ha hb hc B nl' where
      rot: "rb_rotate_right (h, T) n = Some (ha, T, l)"
      and f1: "interval_tree_fix_counts ha (Some n) = Some hb"
      and f2: "interval_tree_fix_counts hb (Some l) = Some hc"
      and hr: "hc l = Some nl'" "parent nl' = Some p"
      and B: "tree_at hc (Some p) (Some l) B" "fields_ok {} (H - {n, l}) B" "amax B = amax ?S" "asize B = asize ?S"
        "keys B = keys ?S"
      and hp: "\<forall>np. h p = Some np \<longrightarrow>
          hc p = Some (if left np = Some n then np\<lparr>left := Some l\<rparr> else np\<lparr>right := Some l\<rparr>)"
      and fr: "\<forall>z. z \<notin> set (addrs ?S) \<longrightarrow> z \<noteq> p \<longrightarrow> hc z = h z"
      using rotate_right_subtree [of h "parent nn" n ll l nl lr nn r H T] tS dS okS p
      unfolding S by (auto simp del: fields_ok.simps)
    have hp': "hc p = Some (if left np = Some n then np\<lparr>left := Some l\<rparr> else np\<lparr>right := Some l\<rparr>)"
      using hp np by simp
    obtain h' t' where f3: "interval_tree_fix_counts hc (Some p) = Some h'"
      and t': "tree_at h' None (Some q) t'" "keys t' = keys t"
        "fields_ok {} (H - {n, l, p} \<union> set_option (parent np)) t'"
      using fix_parent_above [OF n(2) p(1) np fr hp' B yS t [unfolded q] d ok n(1) False refl]
      by blast
    have "rotate_right_fixup (h, T) n = Some (h', T)"
      using rot f1 f2 hr f3
      by (simp add: rotate_right_fixup_def interval_tree_augment_rotate_def)
    then show ?thesis
      using t' p(1) q n(2) np
      by (intro exI [of _ h'] exI [of _ T] exI [of _ t']) (simp add: stale_after_def)
  qed
qed


lemma propagate_tree:
  assumes t: "tree_at h None (root T) t" and d: "distinct (addrs t)" and n: "n \<in> set (addrs t)"
    and ok: "fields_ok (set (path_to t n)) (set (path_to t n) \<union> H) t"
  shows "\<exists>h' t'. interval_tree_augment_propagate h (Some n) = Some h' \<and>
           tree_at h' None (root T) t' \<and> same_shape t t' \<and>
           fields_ok {} (H - set (path_to t n)) t'"
proof -
  obtain q where q: "root T = Some q"
    using t n by (cases t) (auto simp: addrs_Tip)
  obtain h' t' where "interval_tree_augment_propagate h (Some n) =
      interval_tree_augment_propagate h' None"
    and "tree_at h' None (Some q) t'" "same_shape t t'"
    and "fields_ok {} (H - set (path_to t n)) t'"
    using propagate_subtree [OF t [unfolded q] d n ok] by blast
  then show ?thesis
    using q by (intro exI [of _ h'] exI [of _ t'])
      (simp add: interval_tree_augment_propagate.simps)
qed

section \<open>The states reached through insertions, removals and rotations\<close>

lemma fields_ok_mono:
  "fields_ok M H t \<Longrightarrow> M \<subseteq> M' \<Longrightarrow> H \<subseteq> H' \<Longrightarrow> fields_ok M' H' t"
  by (induction t) auto


lemma eqs_at_tree:
  "tree_at h par p t \<Longrightarrow> fields_ok {} H t \<Longrightarrow> (a, m) \<in> set (inorder t) \<Longrightarrow> eqs_at h m"
proof (induction t arbitrary: par p)
  case Tip
  then show ?case by simp
next
  case (Nd l b nd r)
  have tl: "tree_at h (Some b) (left nd) l" and tr: "tree_at h (Some b) (right nd) r"
    using Nd.prems(1) by auto
  consider "(a, m) = (b, nd)" | "(a, m) \<in> set (inorder l)" | "(a, m) \<in> set (inorder r)"
    using Nd.prems(3) by auto
  then show ?case
  proof cases
    case 1
    then show ?thesis
      using Nd.prems(2) node_max_tree [OF tl] node_max_tree [OF tr]
        node_size_tree [OF tl] node_size_tree [OF tr]
      by (simp add: eqs_at_def)
  next
    case 2
    then show ?thesis using Nd.IH(1) [OF tl] Nd.prems(2) by simp
  next
    case 3
    then show ?thesis using Nd.IH(2) [OF tr] Nd.prems(2) by simp
  qed
qed

lemma path_to_outside: "c \<notin> set (addrs t) \<Longrightarrow> path_to t c = []"
  by (cases t) (auto simp: addrs_Nd)

text \<open>
  A subtree of the relinked store whose nodes were nodes of the old tree and have kept
  their fields and children satisfies the equations that it satisfied before.
\<close>

lemma kept_subtree:
  "tree_at h1 par p s \<Longrightarrow>
   \<forall>a \<in> set (addrs s). \<exists>m n. h a = Some m \<and> h1 a = Some n \<and> kept m n \<and> eqs_at h m \<Longrightarrow>
   fields_ok {} UNIV s"
proof (induction s arbitrary: par p)
  case Tip
  then show ?case by simp
next
  case (Nd l b nd r)
  have hb: "h1 b = Some nd"
    and tl: "tree_at h1 (Some b) (left nd) l" and tr: "tree_at h1 (Some b) (right nd) r"
    using Nd.prems(1) by auto
  have all: "\<exists>m n. h a = Some m \<and> h1 a = Some n \<and> kept m n \<and> eqs_at h m"
    if "a \<in> set (addrs (Nd l b nd r))" for a
    using Nd.prems(2) that by blast
  obtain m where m: "h b = Some m" "kept m nd" "eqs_at h m"
    using all [of b] hb by (auto simp: addrs_Nd)
  have same: "interval_tree_node_max h left' = interval_tree_node_max h1 left' \<and>
      interval_tree_node_size h left' = interval_tree_node_size h1 left'"
    if tc: "tree_at h1 (Some b) left' c" and sc: "set (addrs c) \<subseteq> set (addrs (Nd l b nd r))"
    for left' c
  proof (cases c)
    case Tip
    then show ?thesis using tc
      by (simp add: interval_tree_node_max_def interval_tree_node_size_def)
  next
    case (Nd cl ca cn cr)
    then have ca: "left' = Some ca" "h1 ca = Some cn" "ca \<in> set (addrs c)"
      using tc by (auto simp: addrs_Nd)
    obtain cm where "h ca = Some cm" "kept cm cn"
      using all [of ca] ca sc by auto
    then have "max' cm = max' cn" "size' cm = size' cn"
      unfolding kept_def by (metis interval_node.select_convs interval_node.surjective
          interval_node.update_convs(1))+
    then show ?thesis using ca \<open>h ca = Some cm\<close>
      by (simp add: interval_tree_node_max_def interval_tree_node_size_def)
  qed
  have kl: "left m = left nd" "right m = right nd" "high m = high nd" "max' m = max' nd"
    "size' m = size' nd"
    using m(2) unfolding kept_def
    by (metis interval_node.select_convs interval_node.surjective
        interval_node.update_convs(1))+
  have L: "interval_tree_node_max h (left nd) = Some (amax l)"
    "interval_tree_node_size h (left nd) = Some (asize l)"
    using same [OF tl] node_max_tree [OF tl] node_size_tree [OF tl] by (auto simp: addrs_Nd)
  have R: "interval_tree_node_max h (right nd) = Some (amax r)"
    "interval_tree_node_size h (right nd) = Some (asize r)"
    using same [OF tr] node_max_tree [OF tr] node_size_tree [OF tr] by (auto simp: addrs_Nd)
  have eq: "max' nd = max_of (max_of (high nd) (amax l)) (amax r) \<and>
      size' nd = 1 + asize l + asize r"
    using m(3) L R kl by (simp add: eqs_at_def)
  have "fields_ok {} UNIV l"
    using Nd.IH(1) [OF tl] all by (simp add: addrs_Nd)
  moreover have "fields_ok {} UNIV r"
    using Nd.IH(2) [OF tr] all by (simp add: addrs_Nd)
  ultimately show ?case using eq by simp
qed

lemma relinked_fields:
  "tree_at h1 par p s \<Longrightarrow> distinct (addrs s) \<Longrightarrow> c \<in> set (addrs s) \<Longrightarrow>
   \<forall>a \<in> set (addrs s) - set (path_to s c).
      \<exists>m n. h a = Some m \<and> h1 a = Some n \<and> kept m n \<and> eqs_at h m \<Longrightarrow>
   fields_ok (set (path_to s c)) UNIV s"
proof (induction s arbitrary: par p)
  case Tip
  then show ?case by simp
next
  case (Nd l b nd r)
  let ?P = "set (path_to (Nd l b nd r) c)"
  have tl: "tree_at h1 (Some b) (left nd) l" and tr: "tree_at h1 (Some b) (right nd) r"
    using Nd.prems(1) by auto
  have dl: "distinct (addrs l)" and dr: "distinct (addrs r)"
    and bl: "b \<notin> set (addrs l)" and br: "b \<notin> set (addrs r)"
    and disj: "set (addrs l) \<inter> set (addrs r) = {}"
    using Nd.prems(2) by (auto simp: addrs_Nd)
  have off: "fields_ok ?P UNIV u"
    if u: "u = l \<or> u = r" and cu: "c \<notin> set (addrs u)" for u
  proof -
    have tu: "tree_at h1 (Some b) (if u = l then left nd else right nd) u"
      using u tl tr by auto
    have "set (addrs u) \<inter> ?P = {}"
      using u cu bl br disj path_to_subset [of l c] path_to_subset [of r c]
        path_to_outside [of c l] path_to_outside [of c r]
      by (auto simp: addrs_Nd)
    then have "\<forall>a \<in> set (addrs u).
        \<exists>m n. h a = Some m \<and> h1 a = Some n \<and> kept m n \<and> eqs_at h m"
      using Nd.prems(4) u by (auto simp: addrs_Nd)
    then have "fields_ok {} UNIV u" using kept_subtree [OF tu] by blast
    then show ?thesis by (rule fields_ok_mono) simp_all
  qed
  have on: "fields_ok ?P UNIV u"
    if u: "u = l \<and> c \<notin> set (addrs r) \<or> u = r \<and> c \<notin> set (addrs l)"
      and cu: "c \<in> set (addrs u)"
      and IH: "\<And>par p. tree_at h1 par p u \<Longrightarrow> distinct (addrs u) \<Longrightarrow> c \<in> set (addrs u) \<Longrightarrow>
        \<forall>a \<in> set (addrs u) - set (path_to u c).
           \<exists>m n. h a = Some m \<and> h1 a = Some n \<and> kept m n \<and> eqs_at h m \<Longrightarrow>
        fields_ok (set (path_to u c)) UNIV u"
    for u
  proof -
    have tu: "tree_at h1 (Some b) (if u = l then left nd else right nd) u"
      using u tl tr by auto
    have cb: "c \<noteq> b" using u cu bl br by auto
    have P: "?P = insert b (set (path_to u c))"
      using u cu cb disj by auto
    have du: "distinct (addrs u)" using u dl dr by auto
    have "\<forall>a \<in> set (addrs u) - set (path_to u c).
        \<exists>m n. h a = Some m \<and> h1 a = Some n \<and> kept m n \<and> eqs_at h m"
      using Nd.prems(4) u bl br unfolding P by (auto simp: addrs_Nd)
    then have "fields_ok (set (path_to u c)) UNIV u"
      using IH [OF tu du cu] by blast
    then show ?thesis unfolding P by (rule fields_ok_mono) auto
  qed
  have bP: "b \<in> ?P" using Nd.prems(3) by (auto simp: addrs_Nd)
  consider "c = b" | "c \<in> set (addrs l)" "c \<notin> set (addrs r)"
    | "c \<in> set (addrs r)" "c \<notin> set (addrs l)"
    using Nd.prems(3) disj by (auto simp: addrs_Nd)
  then have "fields_ok ?P UNIV l \<and> fields_ok ?P UNIV r"
  proof cases
    case 1
    then show ?thesis using off [of l] off [of r] bl br by simp
  next
    case 2
    then show ?thesis using on [of l] off [of r] Nd.IH(1) by blast
  next
    case 3
    then show ?thesis using on [of r] off [of l] Nd.IH(2) by blast
  qed
  then show ?case using bP by simp
qed

lemma kept_refl: "kept m m"
  by (simp add: kept_def)

lemma addrs_inorder: "a \<in> set (addrs t) \<Longrightarrow> tree_at h par p t \<Longrightarrow> \<exists>m. h a = Some m \<and> (a, m) \<in> set (inorder t)"
  using tree_at_mem by (fastforce simp: addrs_def)

text \<open>
  A structural change followed by the propagate hook keeps the tree well formed and
  the equations of \<open>max\<close> and \<open>size\<close> at every node.
\<close>

lemma relinked_inv:
  assumes t: "tree_at h None (root T) t" "fields_ok {} UNIV t"
    and t1: "tree_at h1 None (root T1) t1" "distinct (addrs t1)" "c \<in> set (addrs t1)"
    and off: "\<forall>a \<in> set (addrs t1) - set (path_to t1 c).
        a \<in> set (addrs t) \<and> (\<exists>m n. h a = Some m \<and> h1 a = Some n \<and> kept m n)"
    and pr: "interval_tree_augment_propagate h1 (Some c) = Some h'"
  shows "\<exists>t'. tree_at h' None (root T1) t' \<and> distinct (addrs t') \<and> fields_ok {} UNIV t'"
proof -
  have "\<forall>a \<in> set (addrs t1) - set (path_to t1 c).
      \<exists>m n. h a = Some m \<and> h1 a = Some n \<and> kept m n \<and> eqs_at h m"
  proof
    fix a assume a: "a \<in> set (addrs t1) - set (path_to t1 c)"
    then obtain m n where mn: "a \<in> set (addrs t)" "h a = Some m" "h1 a = Some n" "kept m n"
      using off by blast
    then have "(a, m) \<in> set (inorder t)"
      using addrs_inorder [OF mn(1) t(1)] by auto
    then have "eqs_at h m" using eqs_at_tree [OF t] by blast
    then show "\<exists>m n. h a = Some m \<and> h1 a = Some n \<and> kept m n \<and> eqs_at h m"
      using mn by blast
  qed
  then have "fields_ok (set (path_to t1 c)) UNIV t1"
    using relinked_fields [OF t1] by blast
  then have "fields_ok (set (path_to t1 c)) (set (path_to t1 c) \<union> UNIV) t1" by simp
  then obtain h'' t' where r: "interval_tree_augment_propagate h1 (Some c) = Some h''"
    "tree_at h'' None (root T1) t'" "same_shape t1 t'"
    "fields_ok {} (UNIV - set (path_to t1 c)) t'"
    using propagate_tree [OF t1] by blast
  have "fields_ok {} UNIV t'" using r(4) by (rule fields_ok_mono) simp_all
  moreover have "distinct (addrs t')" using same_shape_addrs [OF r(3)] t1(2) by simp
  ultimately show ?thesis using r pr by auto
qed

text \<open>Linking a node below a node of the tree, in the store and in the tree.\<close>

lemma graft_tree:
  assumes q: "h q = Some nq" "(case sd of L \<Rightarrow> left nq | R \<Rightarrow> right nq) = None"
    and m: "parent m = Some q" "left m = None" "right m = None"
    and n: "n \<notin> set (addrs t0)"
    and h2: "h2 q = Some (case sd of L \<Rightarrow> nq\<lparr>left := Some n\<rparr> | R \<Rightarrow> nq\<lparr>right := Some n\<rparr>)"
      "h2 n = Some m" "\<forall>x. x \<noteq> n \<longrightarrow> x \<noteq> q \<longrightarrow> h2 x = h x"
  shows "tree_at h par p t \<Longrightarrow> distinct (addrs t) \<Longrightarrow> q \<in> set (addrs t) \<Longrightarrow>
    set (addrs t) \<subseteq> set (addrs t0) \<Longrightarrow>
    tree_at h2 par p (graft t q sd n m) \<and>
    set (addrs (graft t q sd n m)) = insert n (set (addrs t)) \<and>
    distinct (addrs (graft t q sd n m)) \<and>
    n \<in> set (path_to (graft t q sd n m) n) \<and> q \<in> set (path_to (graft t q sd n m) n)"
proof (induction t arbitrary: par p)
  case Tip
  then show ?case by (simp add: addrs_Tip)
next
  case (Nd l b nd r)
  have pb: "p = Some b" and hb: "h b = Some nd" and par: "parent nd = par"
    and tl: "tree_at h (Some b) (left nd) l" and tr: "tree_at h (Some b) (right nd) r"
    using Nd.prems(1) by auto
  have dl: "distinct (addrs l)" and dr: "distinct (addrs r)"
    and bl: "b \<notin> set (addrs l)" and br: "b \<notin> set (addrs r)"
    and disj: "set (addrs l) \<inter> set (addrs r) = {}"
    using Nd.prems(2) by (auto simp: addrs_Nd)
  have nn: "n \<noteq> b" "n \<notin> set (addrs l)" "n \<notin> set (addrs r)"
    using n Nd.prems(4) by (auto simp: addrs_Nd)
  have frame: "tree_at h2 (Some b) c u"
    if "tree_at h (Some b) c u" "q \<notin> set (addrs u)" "n \<notin> set (addrs u)" for c u
  proof -
    have "\<forall>x \<in> set (addrs u). h2 x = h x" using that(2,3) h2(3) by auto
    then show ?thesis using tree_at_frame that(1) by metis
  qed
  show ?case
  proof (cases "b = q")
    case True
    then have nd: "nd = nq" using hb q(1) by simp
    have ql: "q \<notin> set (addrs l)" "q \<notin> set (addrs r)" using True bl br by auto
    show ?thesis
    proof (cases sd)
      case L
      then have "left nd = None" using q(2) nd by simp
      then have l: "l = Tip" using tl tree_at_None by metis
      have "tree_at h2 (Some q) (right nq) r" using frame [OF tr ql(2) nn(3)] True nd by simp
      then show ?thesis
        using L True nd l pb par h2(1,2) m nn dr br
        by (simp add: addrs_Nd addrs_Tip)
    next
      case R
      then have "right nd = None" using q(2) nd by simp
      then have r: "r = Tip" using tr tree_at_None by metis
      have "tree_at h2 (Some q) (left nq) l" using frame [OF tl ql(1) nn(2)] True nd by simp
      then show ?thesis
        using R True nd r pb par h2(1,2) m nn dl bl
        by (auto simp: addrs_Nd addrs_Tip)
    qed
  next
    case False
    have hb': "h2 b = Some nd" using False nn(1) hb h2(3) by simp
    show ?thesis
    proof (cases "q \<in> set (addrs l)")
      case True
      then have qr: "q \<notin> set (addrs r)" using disj by auto
      have IH: "tree_at h2 (Some b) (left nd) (graft l q sd n m) \<and>
          set (addrs (graft l q sd n m)) = insert n (set (addrs l)) \<and>
          distinct (addrs (graft l q sd n m)) \<and>
          n \<in> set (path_to (graft l q sd n m) n) \<and> q \<in> set (path_to (graft l q sd n m) n)"
        using Nd.IH(1) [OF tl dl True] Nd.prems(4) by (simp add: addrs_Nd)
      show ?thesis
        using IH False True pb par hb' frame [OF tr qr nn(3)] dr bl br disj nn
        by (auto simp: addrs_Nd)
    next
      case nl: False
      then have qr: "q \<in> set (addrs r)" using Nd.prems(3) False by (auto simp: addrs_Nd)
      have IH: "tree_at h2 (Some b) (right nd) (graft r q sd n m) \<and>
          set (addrs (graft r q sd n m)) = insert n (set (addrs r)) \<and>
          distinct (addrs (graft r q sd n m)) \<and>
          n \<in> set (path_to (graft r q sd n m) n) \<and> q \<in> set (path_to (graft r q sd n m) n)"
        using Nd.IH(2) [OF tr dr qr] Nd.prems(4) by (simp add: addrs_Nd)
      show ?thesis
        using IH False nl pb par hb' frame [OF tl nl nn(2)] dl bl br disj nn
        by (auto simp: addrs_Nd)
    qed
  qed
qed

lemma tree_at_unique: "tree_at h par p t \<Longrightarrow> tree_at h par p t' \<Longrightarrow> t = t'"
proof (induction t arbitrary: par p t')
  case Tip
  then show ?case by (cases t') auto
next
  case (Nd l b nd r)
  then show ?case by (cases t') auto
qed

text \<open>An insertion is a structural change that began at the inserted node.\<close>

lemma inserted_inv:
  assumes t: "tree_at h None (root T) t" "distinct (addrs t)" "fields_ok {} UNIV t"
    and n: "n \<notin> set (addrs t)" and fp: "free_place h t place"
    and lp: "link_propagate (h, T) n place = Some s"
  shows "\<exists>t'. tree_at (fst s) None (root (snd s)) t' \<and> distinct (addrs t') \<and>
           fields_ok {} UNIV t'"
proof -
  obtain nn where hn: "h n = Some nn"
    using lp by (auto simp: link_propagate_def modify_def split: option.splits)
  define m where "m = nn\<lparr>parent := map_option fst place, left := None, right := None\<rparr>"
  have m: "parent m = map_option fst place" "left m = None" "right m = None"
    by (simp_all add: m_def)
  show ?thesis
  proof (cases place)
    case None
    then have tip: "t = Tip" using fp by (simp add: free_place_def)
    let ?T = "T\<lparr>root := Some n\<rparr>"
    obtain h' where pr: "interval_tree_augment_propagate (h(n \<mapsto> m)) (Some n) = Some h'"
      and s: "s = (h', ?T)"
      using lp hn None unfolding m_def
      by (auto simp: link_propagate_def modify_def)
    have t1: "tree_at (h(n \<mapsto> m)) None (root ?T) (Nd Tip n m Tip)"
      using m None by simp
    have "\<exists>t'. tree_at h' None (root ?T) t' \<and> distinct (addrs t') \<and> fields_ok {} UNIV t'"
      using relinked_inv [OF t(1,3) t1 _ _ _ pr] by (simp add: addrs_Nd addrs_Tip)
    then show ?thesis using s by simp
  next
    case (Some pl)
    obtain q sd where pl: "pl = (q, sd)" by (cases pl)
    obtain nq where q: "q \<in> set (addrs t)" "h q = Some nq"
      "(case sd of L \<Rightarrow> left nq | R \<Rightarrow> right nq) = None"
      using fp Some pl by (auto simp: free_place_def split: option.splits)
    have nq: "n \<noteq> q" using n q(1) by auto
    define h2 where "h2 = h(n \<mapsto> m,
      q \<mapsto> (case sd of L \<Rightarrow> nq\<lparr>left := Some n\<rparr> | R \<Rightarrow> nq\<lparr>right := Some n\<rparr>))"
    have h2: "h2 q = Some (case sd of L \<Rightarrow> nq\<lparr>left := Some n\<rparr> | R \<Rightarrow> nq\<lparr>right := Some n\<rparr>)"
      "h2 n = Some m" "\<forall>x. x \<noteq> n \<longrightarrow> x \<noteq> q \<longrightarrow> h2 x = h x"
      using nq by (simp_all add: h2_def)
    obtain h' where pr: "interval_tree_augment_propagate h2 (Some n) = Some h'"
      and s: "s = (h', T)"
      using lp hn Some pl q(2) nq unfolding m_def h2_def
      by (cases sd) (auto simp: link_propagate_def modify_def set_child_def)
    have mq: "parent m = Some q" using m(1) Some pl by simp
    let ?t1 = "graft t q sd n m"
    have g: "tree_at h2 None (root T) ?t1" "set (addrs ?t1) = insert n (set (addrs t))"
      "distinct (addrs ?t1)" "n \<in> set (path_to ?t1 n)" "q \<in> set (path_to ?t1 n)"
      using graft_tree [OF q(2,3) mq m(2,3) n h2 t(1,2) q(1)] by simp_all
    have off: "\<forall>a \<in> set (addrs ?t1) - set (path_to ?t1 n).
        a \<in> set (addrs t) \<and> (\<exists>m n. h a = Some m \<and> h2 a = Some n \<and> kept m n)"
    proof
      fix a assume a: "a \<in> set (addrs ?t1) - set (path_to ?t1 n)"
      then have a': "a \<noteq> n" "a \<noteq> q" "a \<in> set (addrs t)" using g(2,4,5) by auto
      then obtain ma where "h a = Some ma" using addrs_inorder [OF a'(3) t(1)] by blast
      then show "a \<in> set (addrs t) \<and> (\<exists>m n. h a = Some m \<and> h2 a = Some n \<and> kept m n)"
        using a' h2(3) kept_refl by auto
    qed
    have "n \<in> set (addrs ?t1)" using g(2) by simp
    then have "\<exists>t'. tree_at h' None (root T) t' \<and> distinct (addrs t') \<and> fields_ok {} UNIV t'"
      using relinked_inv [OF t(1,3) g(1,3) _ off pr] by simp
    then show ?thesis using s by simp
  qed
qed

text \<open>
  In every reached state the links form a tree of distinct nodes, and the equations of
  \<open>max\<close> and \<open>size\<close> hold at every node.
\<close>

lemma reached_inv:
  "reached s \<Longrightarrow>
   \<exists>t. tree_at (fst s) None (root (snd s)) t \<and> distinct (addrs t) \<and> fields_ok {} UNIV t"
proof (induction rule: reached.induct)
  case (start h)
  have "tree_at h None None Tip \<and> distinct (addrs Tip) \<and> fields_ok {} UNIV Tip"
    by (simp add: addrs_Tip)
  then show ?case by (intro exI [of _ Tip]) simp
next
  case (inserted h T t n place s)
  obtain t' where t': "tree_at h None (root T) t'" "distinct (addrs t')" "fields_ok {} UNIV t'"
    using inserted.IH by auto
  have "t' = t" using tree_at_unique [OF t'(1) inserted.hyps(2)] .
  then show ?case
    using inserted_inv [OF inserted.hyps(2) _ _ inserted.hyps(3,4,5)] t' by simp
next
  case (relinked h T t h1 T1 t1 c h')
  obtain t' where t': "tree_at h None (root T) t'" "fields_ok {} UNIV t'"
    using relinked.IH by auto
  have "t' = t" using tree_at_unique [OF t'(1) relinked.hyps(2)] .
  then show ?case
    using relinked_inv [OF relinked.hyps(2) _ relinked.hyps(3,4,5,6,7)] t' by simp
next
  case (rotated_left h T t n s)
  obtain t' where t': "tree_at h None (root T) t'" "distinct (addrs t')" "fields_ok {} UNIV t'"
    using rotated_left.IH by auto
  have tt: "t' = t" using tree_at_unique [OF t'(1) rotated_left.hyps(2)] .
  obtain nn r where n: "h n = Some nn" "right nn = Some r"
    using rotated_left.hyps(4)
    by (auto simp: rotate_left_fixup_def rb_rotate_left_def split: option.splits)
  obtain h' T' u where u: "rotate_left_fixup (h, T) n = Some (h', T')"
    "tree_at h' None (root T') u" "keys u = keys t"
    "fields_ok {} (stale_after h UNIV n r) u"
    using rotate_left_fixup_tree [OF rotated_left.hyps(2) _ _ rotated_left.hyps(3) n, of UNIV]
      t' tt by blast
  have "fields_ok {} UNIV u" using u(4) by (rule fields_ok_mono) simp_all
  moreover have "distinct (addrs u)" using u(3) t'(2) tt by (simp add: addrs_keys)
  ultimately show ?case using u(1,2) rotated_left.hyps(4) by auto
next
  case (rotated_right h T t n s)
  obtain t' where t': "tree_at h None (root T) t'" "distinct (addrs t')" "fields_ok {} UNIV t'"
    using rotated_right.IH by auto
  have tt: "t' = t" using tree_at_unique [OF t'(1) rotated_right.hyps(2)] .
  obtain nn l where n: "h n = Some nn" "left nn = Some l"
    using rotated_right.hyps(4)
    by (auto simp: rotate_right_fixup_def rb_rotate_right_def split: option.splits)
  obtain h' T' u where u: "rotate_right_fixup (h, T) n = Some (h', T')"
    "tree_at h' None (root T') u" "keys u = keys t"
    "fields_ok {} (stale_after h UNIV n l) u"
    using rotate_right_fixup_tree [OF rotated_right.hyps(2) _ _ rotated_right.hyps(3) n, of UNIV]
      t' tt by blast
  have "fields_ok {} UNIV u" using u(4) by (rule fields_ok_mono) simp_all
  moreover have "distinct (addrs u)" using u(3) t'(2) tt by (simp add: addrs_keys)
  ultimately show ?case using u(1,2) rotated_right.hyps(4) by auto
qed





text \<open>
  A run of the propagate hook alone is a structural change that changes no link; it
  leads from a reached state to a reached state, whenever the engine runs it.
\<close>

lemma reached_propagate:
  assumes "reached (h, T)" and "tree_at h None (root T) t" and "c \<in> set (addrs t)"
    and "interval_tree_augment_propagate h (Some c) = Some h'"
  shows "reached (h', T)"
proof -
  obtain t' where t': "tree_at h None (root T) t'" "distinct (addrs t')"
    using reached_inv [OF assms(1)] by auto
  have d: "distinct (addrs t)" using tree_at_unique [OF t'(1) assms(2)] t'(2) by simp
  have "\<forall>a \<in> set (addrs t) - set (path_to t c).
      a \<in> set (addrs t) \<and> (\<exists>m n. h a = Some m \<and> h a = Some n \<and> kept m n)"
    using addrs_inorder [OF _ assms(2)] kept_refl by blast
  then show ?thesis
    using reached.relinked [OF assms(1,2) assms(2) d assms(3) _ assms(4)] by blast
qed



section \<open>Signed endpoints\<close>

text \<open>
  The theorems about the queries and the \<open>max\<close> field are for unsigned endpoints,
  where the 0 that \<^verbatim>\<open>interval_tree_node_max\<close> returns for an absent child is the least
  endpoint. Were \<^verbatim>\<open>interval_type_t\<close> a signed type, that 0 would exceed every negative
  endpoint: in \<open>neg_tree\<close>, which satisfies both invariants, the \<open>max\<close> of the left
  child is 0, the walk for the query [-5,-4] goes left and never visits node 3, which
  holds [-5,-4]; and a lone node that holds [-5,-3] gets the \<open>max\<close> 0.
\<close>

lemma signed_endpoints_pruning:
  "tree_at neg_heap None (Some 2) neg_tree \<and> bst neg_tree \<and> aug_ok neg_tree \<and>
   map fst (overlapping neg_tree (-5) (-4)) = [3] \<and>
   interval_tree_min_interval neg_heap (Some 2) (-5) (-4) = Some None \<and>
   interval_tree_find neg_heap \<lparr>root = Some 2\<rparr> (-5) (-4) = Some None \<and>
   iterate neg_heap \<lparr>root = Some 2\<rparr> (-5) (-4) \<lparr>low_it = 0, high_it = 0, n_it = None\<rparr> = Some []"
  by (simp add: neg_heap_def neg_tree_def mk_node_def inv_defs interval_tree_min_interval_def
      min_interval_loop.simps interval_tree_find_def find_loop.simps iterate_def
      interval_tree_iter_first_def drain.simps)

lemma signed_endpoints_max:
  "interval_tree_augment_propagate lone_heap (Some 1) =
     Some [1 \<mapsto> mk_node None None None (-5) (-3) 0 1 1]"
  by (simp add: lone_heap_def mk_node_def interval_tree_augment_propagate.simps
      interval_tree_fix_counts_def interval_tree_node_size_def interval_tree_node_height_def
      interval_tree_node_max_def max_of_def max_int_def)

section \<open>The height field and the order of the hooks\<close>

text \<open>
  The rotation-fixup hook recomputes the old top, the new top and the parent of the
  pair. A rotation that changes the height of the rotated subtree leaves the parent of
  that parent with a \<open>height\<close> that no longer fits (\<open>stale_after\<close>), until a run of
  the propagate hook passes it. Node 1 is inserted into the red-black tree of
  \<open>rb_heap\<close> below node 3, and the engine rotates right at node 5. When the propagate
  hook runs from node 1 before the rotation, the root keeps the height 5 while its
  children have the heights 3 and 1; when it runs after the rotation, the root gets the
  height 4. The spec does not say which of the two the engine does.
\<close>

lemma propagate_then_rotate:
  "map_option (\<lambda>s. (fst s 20, fst s 10, fst s 30))
     (Option.bind (link_propagate (rb_heap, \<lparr>root = Some 20\<rparr>) 1 (Some (3, L)))
        (\<lambda>s. rotate_right_fixup s 5)) =
     Some (Some (mk_node None (Some 10) (Some 30) 20 21 31 7 5),
           Some (mk_node (Some 20) (Some 3) (Some 15) 10 11 16 5 3),
           Some (mk_node (Some 20) None None 30 31 31 1 1)) \<and>
   (5 :: 32 word) \<noteq> 1 + max_int 3 1"
  by (simp add: rb_defs max_of_def max_int_def link_propagate_def modify_def set_child_def
      interval_tree_augment_propagate.simps interval_tree_fix_counts_def
      interval_tree_node_size_def interval_tree_node_height_def interval_tree_node_max_def
      rotate_right_fixup_def rb_rotate_right_def replace_child_def
      interval_tree_augment_rotate_def)

lemma rotate_then_propagate:
  "map_option (\<lambda>h. (h 20, h 10, h 30))
     (Option.bind (rotate_right_fixup (rb_linked, \<lparr>root = Some 20\<rparr>) 5)
        (\<lambda>s. interval_tree_augment_propagate (fst s) (Some 1))) =
     Some (Some (mk_node None (Some 10) (Some 30) 20 21 31 7 4),
           Some (mk_node (Some 20) (Some 3) (Some 15) 10 11 16 5 3),
           Some (mk_node (Some 20) None None 30 31 31 1 1)) \<and>
   (4 :: 32 word) = 1 + max_int 3 1"
  by (simp add: rb_defs max_of_def max_int_def modify_def set_child_def
      interval_tree_augment_propagate.simps interval_tree_fix_counts_def
      interval_tree_node_size_def interval_tree_node_height_def interval_tree_node_max_def
      rotate_right_fixup_def rb_rotate_right_def replace_child_def
      interval_tree_augment_rotate_def)

end
